theory Spec2Isabelle
  imports Main "HOL-Library.Word" "HOL-Library.Monad_Syntax" "HOL-Library.Tree"
    "HOL-Library.Sublist"
begin

section \<open>Memory model\<close>

text \<open>
  The C code manipulates \<^verbatim>\<open>struct avl_node\<close> objects through raw pointers. A pointer is
  either \<^verbatim>\<open>NULL\<close> (\<open>None\<close>) or the address of a node (\<open>Some a\<close>). Memory is a total
  function from addresses to node contents: every non-null pointer can be dereferenced,
  and the contents of a node that was never initialised are arbitrary. The only run-time
  fault of the model is the dereference of \<^verbatim>\<open>NULL\<close>.

  Every operation returns an \<open>option\<close>: \<open>None\<close> means that the C function has no
  defined result, because it dereferences \<^verbatim>\<open>NULL\<close> or because one of its loops never
  ends; \<open>Some\<close> carries the result and the memory after the call.
\<close>

type_synonym addr = nat
type_synonym ptr = "addr option"

text \<open>\<^verbatim>\<open>struct avl_node\<close>; the height is an \<^verbatim>\<open>int8_t\<close>.\<close>

record avl_node =
  avl_parent :: ptr
  avl_left :: ptr
  avl_right :: ptr
  avl_height :: "8 word"

text \<open>
  The state: the node memory and the single \<^verbatim>\<open>struct avl_root\<close> of the tree, whose only
  field \<^verbatim>\<open>avl_node\<close> is the root pointer.
\<close>

record avl_state =
  nodes :: "addr \<Rightarrow> avl_node"
  root_node :: ptr

text \<open>Field writes \<^verbatim>\<open>a->f = v\<close> and the write \<^verbatim>\<open>*root = v\<close>.\<close>

definition set_parent :: "addr \<Rightarrow> ptr \<Rightarrow> avl_state \<Rightarrow> avl_state" where
  "set_parent a v s = s\<lparr>nodes := (nodes s)(a := (nodes s a)\<lparr>avl_parent := v\<rparr>)\<rparr>"

definition set_left :: "addr \<Rightarrow> ptr \<Rightarrow> avl_state \<Rightarrow> avl_state" where
  "set_left a v s = s\<lparr>nodes := (nodes s)(a := (nodes s a)\<lparr>avl_left := v\<rparr>)\<rparr>"

definition set_right :: "addr \<Rightarrow> ptr \<Rightarrow> avl_state \<Rightarrow> avl_state" where
  "set_right a v s = s\<lparr>nodes := (nodes s)(a := (nodes s a)\<lparr>avl_right := v\<rparr>)\<rparr>"

definition set_height :: "addr \<Rightarrow> 8 word \<Rightarrow> avl_state \<Rightarrow> avl_state" where
  "set_height a v s = s\<lparr>nodes := (nodes s)(a := (nodes s a)\<lparr>avl_height := v\<rparr>)\<rparr>"

definition set_root :: "ptr \<Rightarrow> avl_state \<Rightarrow> avl_state" where
  "set_root v s = s\<lparr>root_node := v\<rparr>"

text \<open>Field reads \<^verbatim>\<open>a->f\<close> of a non-null pointer.\<close>

definition parent_of :: "avl_state \<Rightarrow> addr \<Rightarrow> ptr" where
  "parent_of s a = avl_parent (nodes s a)"

definition left_of :: "avl_state \<Rightarrow> addr \<Rightarrow> ptr" where
  "left_of s a = avl_left (nodes s a)"

definition right_of :: "avl_state \<Rightarrow> addr \<Rightarrow> ptr" where
  "right_of s a = avl_right (nodes s a)"

definition height_of :: "avl_state \<Rightarrow> addr \<Rightarrow> 8 word" where
  "height_of s a = avl_height (nodes s a)"


section \<open>Height bookkeeping\<close>

text \<open>
  Modelled from the spec: the kernel macro \<^verbatim>\<open>max\<close> of \<^verbatim>\<open>linux/kernel.h\<close> is not part
  of the sources at hand. The spec uses it as the larger of the two child heights; on
  \<^verbatim>\<open>int8_t\<close> operands this is the signed maximum.
\<close>

definition max_int8 :: "8 word \<Rightarrow> 8 word \<Rightarrow> 8 word" where
  "max_int8 x y = (if x <s y then y else x)"

text \<open>\<^verbatim>\<open>avl_init_node\<close>: the three links are cleared, the height is 1.\<close>

definition avl_init_node :: "ptr \<Rightarrow> avl_state \<Rightarrow> avl_state option" where
  "avl_init_node node s = do {
     a \<leftarrow> node;
     Some (set_height a 1 (set_parent a None (set_left a None (set_right a None s))))
   }"

text \<open>
  \<^verbatim>\<open>avl_height\<close>: 0 for \<^verbatim>\<open>NULL\<close>, else the stored height. (The function is named
  \<open>avl_height_fn\<close> because \<open>avl_height\<close> is the field.)
\<close>

definition avl_height_fn :: "avl_state \<Rightarrow> ptr \<Rightarrow> 8 word" where
  "avl_height_fn s n = (case n of None \<Rightarrow> 0 | Some a \<Rightarrow> height_of s a)"

text \<open>
  \<^verbatim>\<open>avl_update_height\<close>. The sum \<^verbatim>\<open>max(hl, hr) + 1\<close> is computed in \<^verbatim>\<open>int\<close> and stored
  into an \<^verbatim>\<open>int8_t\<close>: it wraps around at 127, as the word addition does.
\<close>

definition avl_update_height :: "ptr \<Rightarrow> avl_state \<Rightarrow> avl_state option" where
  "avl_update_height n s = do {
     a \<leftarrow> n;
     let hl = avl_height_fn s (left_of s a);
     let hr = avl_height_fn s (right_of s a);
     Some (set_height a (max_int8 hl hr + 1) s)
   }"

section \<open>Rotations\<close>

text \<open>
  Each statement of the C function reads the memory left by the statement before it,
  so the model threads the state through the statements one by one.
\<close>

definition avl_rotate_right :: "ptr \<Rightarrow> avl_state \<Rightarrow> avl_state option" where
  "avl_rotate_right y s0 = do {
     ya \<leftarrow> y;
     let x = left_of s0 ya;
     xa \<leftarrow> x;
     let s1 = set_left ya (right_of s0 xa) s0;
     let s2 = (case right_of s1 xa of None \<Rightarrow> s1 | Some c \<Rightarrow> set_parent c y s1);
     let s3 = set_parent xa (parent_of s2 ya) s2;
     let s4 = (case parent_of s3 ya of
                 None \<Rightarrow> set_root x s3
               | Some p \<Rightarrow> if y = left_of s3 p then set_left p x s3 else set_right p x s3);
     let s5 = set_right xa y s4;
     let s6 = set_parent ya x s5;
     s7 \<leftarrow> avl_update_height y s6;
     avl_update_height x s7
   }"

definition avl_rotate_left :: "ptr \<Rightarrow> avl_state \<Rightarrow> avl_state option" where
  "avl_rotate_left x s0 = do {
     xa \<leftarrow> x;
     let y = right_of s0 xa;
     ya \<leftarrow> y;
     let s1 = set_right xa (left_of s0 ya) s0;
     let s2 = (case left_of s1 ya of None \<Rightarrow> s1 | Some c \<Rightarrow> set_parent c x s1);
     let s3 = set_parent ya (parent_of s2 xa) s2;
     let s4 = (case parent_of s3 xa of
                 None \<Rightarrow> set_root y s3
               | Some p \<Rightarrow> if x = left_of s3 p then set_left p y s3 else set_right p y s3);
     let s5 = set_left ya x s4;
     let s6 = set_parent xa y s5;
     s7 \<leftarrow> avl_update_height x s6;
     avl_update_height y s7
   }"

section \<open>The rebalance walk\<close>

text \<open>
  The body of the \<^verbatim>\<open>while\<close> loop of \<^verbatim>\<open>avl_rebalance\<close> at the non-null node \<open>n\<close>, up to
  but not including the step \<^verbatim>\<open>n = n->avl_parent\<close>. The balance is the difference of
  two \<^verbatim>\<open>int8_t\<close> values stored into an \<^verbatim>\<open>int8_t\<close>.
\<close>

definition avl_rebalance_body :: "addr \<Rightarrow> avl_state \<Rightarrow> avl_state option" where
  "avl_rebalance_body n s0 = do {
     s1 \<leftarrow> avl_update_height (Some n) s0;
     let balance = avl_height_fn s1 (left_of s1 n) - avl_height_fn s1 (right_of s1 n);
     if 1 <s balance then do {
       l \<leftarrow> left_of s1 n;
       s2 \<leftarrow> (if avl_height_fn s1 (left_of s1 l) <s avl_height_fn s1 (right_of s1 l)
              then avl_rotate_left (left_of s1 n) s1 else Some s1);
       avl_rotate_right (Some n) s2
     } else if balance <s - 1 then do {
       r \<leftarrow> right_of s1 n;
       s2 \<leftarrow> (if avl_height_fn s1 (right_of s1 r) <s avl_height_fn s1 (left_of s1 r)
              then avl_rotate_right (right_of s1 n) s1 else Some s1);
       avl_rotate_left (Some n) s2
     } else Some s1
   }"

partial_function (option) avl_rebalance :: "ptr \<Rightarrow> avl_state \<Rightarrow> avl_state option" where
  "avl_rebalance n s =
     (case n of
        None \<Rightarrow> Some s
      | Some a \<Rightarrow> (case avl_rebalance_body a s of
                    None \<Rightarrow> None
                  | Some s' \<Rightarrow> avl_rebalance (parent_of s' a) s'))"

section \<open>Insertion\<close>

definition avl_link_node :: "ptr \<Rightarrow> ptr \<Rightarrow> bool \<Rightarrow> avl_state \<Rightarrow> avl_state option" where
  "avl_link_node node parent is_left s0 = do {
     s1 \<leftarrow> avl_init_node node s0;
     a \<leftarrow> node;
     let s2 = set_parent a parent s1;
     Some (case parent of
             None \<Rightarrow> set_root node s2
           | Some p \<Rightarrow> if is_left then set_left p node s2 else set_right p node s2)
   }"

definition avl_insert_color :: "ptr \<Rightarrow> avl_state \<Rightarrow> avl_state option" where
  "avl_insert_color node s = do {
     a \<leftarrow> node;
     avl_rebalance (parent_of s a) s
   }"

section \<open>Erase\<close>

text \<open>
  \<^verbatim>\<open>avl_subtree_min\<close>. The function only reads; the state is returned with the result
  so that this can be stated.
\<close>

partial_function (option) avl_subtree_min :: "ptr \<Rightarrow> avl_state \<Rightarrow> (ptr \<times> avl_state) option" where
  "avl_subtree_min n s =
     (case n of
        None \<Rightarrow> Some (n, s)
      | Some a \<Rightarrow> (case left_of s a of
                    None \<Rightarrow> Some (n, s)
                  | Some l \<Rightarrow> avl_subtree_min (left_of s a) s))"

text \<open>
  \<^verbatim>\<open>avl_erase\<close>. The local \<^verbatim>\<open>parent\<close> is read once, from the node passed in, before the
  two-children test replaces \<^verbatim>\<open>node\<close> by its successor.
\<close>

definition avl_erase :: "ptr \<Rightarrow> avl_state \<Rightarrow> avl_state option" where
  "avl_erase node0 s0 = do {
     a0 \<leftarrow> node0;
     let parent = parent_of s0 a0;
     (node, s1) \<leftarrow> (if left_of s0 a0 \<noteq> None \<and> right_of s0 a0 \<noteq> None
                    then avl_subtree_min (right_of s0 a0) s0
                    else Some (node0, s0));
     a \<leftarrow> node;
     let child = (if left_of s1 a \<noteq> None then left_of s1 a else right_of s1 a);
     let s2 = (case child of None \<Rightarrow> s1 | Some c \<Rightarrow> set_parent c parent s1);
     let s3 = (case parent of
                 None \<Rightarrow> set_root child s2
               | Some p \<Rightarrow> if node = left_of s2 p then set_left p child s2
                          else set_right p child s2);
     avl_rebalance parent s3
   }"

section \<open>Ordered traversal\<close>

definition avl_first :: "avl_state \<Rightarrow> (ptr \<times> avl_state) option" where
  "avl_first s = avl_subtree_min (root_node s) s"

text \<open>The \<^verbatim>\<open>while\<close> loop of \<^verbatim>\<open>avl_next\<close>, with the \<^verbatim>\<open>return n->avl_parent\<close> after it.\<close>

partial_function (option) avl_next_ascend :: "addr \<Rightarrow> avl_state \<Rightarrow> (ptr \<times> avl_state) option" where
  "avl_next_ascend n s =
     (case parent_of s n of
        None \<Rightarrow> Some (parent_of s n, s)
      | Some p \<Rightarrow> if Some n = right_of s p then avl_next_ascend p s
                 else Some (parent_of s n, s))"

definition avl_next :: "ptr \<Rightarrow> avl_state \<Rightarrow> (ptr \<times> avl_state) option" where
  "avl_next node s = do {
     a \<leftarrow> node;
     if right_of s a \<noteq> None then avl_subtree_min (right_of s a) s
     else avl_next_ascend a s
   }"

section \<open>The test harness\<close>

text \<open>
  \<^verbatim>\<open>struct test_node\<close> embeds the node header next to an \<^verbatim>\<open>int\<close> key. The model
  identifies a test node with the address of its header (this is what \<^verbatim>\<open>container_of\<close>
  recovers) and keeps the keys in a function of their own: no tree operation writes a
  key. Keys are only compared, so they are integers.

  The cursor \<^verbatim>\<open>struct avl_node **link\<close> of \<^verbatim>\<open>avl_insert_key\<close> points to the root slot or
  to the left or right slot of a node.
\<close>

datatype link = Root_link | Left_link addr | Right_link addr

definition read_link :: "link \<Rightarrow> avl_state \<Rightarrow> ptr" where
  "read_link k s =
     (case k of Root_link \<Rightarrow> root_node s | Left_link p \<Rightarrow> left_of s p | Right_link p \<Rightarrow> right_of s p)"

partial_function (option) avl_insert_key_walk ::
  "(addr \<Rightarrow> int) \<Rightarrow> addr \<Rightarrow> ptr \<Rightarrow> link \<Rightarrow> avl_state \<Rightarrow> (ptr \<times> link) option" where
  "avl_insert_key_walk key tn parent lnk s =
     (case read_link lnk s of
        None \<Rightarrow> Some (parent, lnk)
      | Some p \<Rightarrow> if key tn < key p then avl_insert_key_walk key tn (Some p) (Left_link p) s
                 else avl_insert_key_walk key tn (Some p) (Right_link p) s)"

text \<open>
  The flag \<^verbatim>\<open>link == &parent->avl_left\<close> is only read by \<^verbatim>\<open>avl_link_node\<close> when
  \<^verbatim>\<open>parent\<close> is not null; for a null parent the model passes \<open>False\<close>.
\<close>

definition avl_insert_key :: "(addr \<Rightarrow> int) \<Rightarrow> addr \<Rightarrow> avl_state \<Rightarrow> avl_state option" where
  "avl_insert_key key tn s0 = do {
     (parent, lnk) \<leftarrow> avl_insert_key_walk key tn None Root_link s0;
     s1 \<leftarrow> avl_link_node (Some tn) parent
            (case parent of None \<Rightarrow> False | Some p \<Rightarrow> lnk = Left_link p) s0;
     avl_insert_color (Some tn) s1
   }"

text \<open>The loop of \<^verbatim>\<open>print_inorder\<close>; the result is the list of the keys printed.\<close>

partial_function (option) print_inorder_from ::
  "(addr \<Rightarrow> int) \<Rightarrow> ptr \<Rightarrow> avl_state \<Rightarrow> (int list \<times> avl_state) option" where
  "print_inorder_from key n s =
     (case n of
        None \<Rightarrow> Some ([], s)
      | Some a \<Rightarrow> do {
          (n', s') \<leftarrow> avl_next n s;
          (ks, s'') \<leftarrow> print_inorder_from key n' s';
          Some (key a # ks, s'')
        })"

definition print_inorder :: "(addr \<Rightarrow> int) \<Rightarrow> avl_state \<Rightarrow> (int list \<times> avl_state) option" where
  "print_inorder key s = do {
     (n, s') \<leftarrow> avl_first s;
     print_inorder_from key n s'
   }"

text \<open>The insertion loop of \<^verbatim>\<open>main\<close>, over the nodes allocated for the keys.\<close>

fun insert_all :: "(addr \<Rightarrow> int) \<Rightarrow> addr list \<Rightarrow> avl_state \<Rightarrow> avl_state option" where
  "insert_all key [] s = Some s"
| "insert_all key (tn # tns) s = do { s' \<leftarrow> avl_insert_key key tn s; insert_all key tns s' }"

text \<open>\<^verbatim>\<open>struct avl_root tree = { .avl_node = NULL }\<close> over a memory \<open>m\<close>.\<close>

definition empty_tree :: "(addr \<Rightarrow> avl_node) \<Rightarrow> avl_state" where
  "empty_tree m = \<lparr>nodes = m, root_node = None\<rparr>"

section \<open>Trees in memory\<close>

text \<open>
  \<open>is_tree s par p t\<close>: the pointer \<open>p\<close> is the root of a subtree of shape \<open>t\<close> (a tree
  of node addresses), every node of which points back to its parent, the topmost one to
  \<open>par\<close>. A well-formed tree hangs from the root pointer, its root has a null parent and
  no node occurs twice.
\<close>

fun is_tree :: "avl_state \<Rightarrow> ptr \<Rightarrow> ptr \<Rightarrow> addr tree \<Rightarrow> bool" where
  "is_tree s par p Leaf = (p = None)"
| "is_tree s par p (Node l a r) =
     (p = Some a \<and> parent_of s a = par \<and>
      is_tree s (Some a) (left_of s a) l \<and> is_tree s (Some a) (right_of s a) r)"

definition wf_tree :: "avl_state \<Rightarrow> addr tree \<Rightarrow> bool" where
  "wf_tree s t = (is_tree s None (root_node s) t \<and> distinct (inorder t))"

text \<open>The pointer to the root of a tree: null for the empty tree.\<close>

definition root_ptr :: "addr tree \<Rightarrow> ptr" where
  "root_ptr t = (case t of Leaf \<Rightarrow> None | Node l a r \<Rightarrow> Some a)"

text \<open>
  The two invariants of the spec on a tree in memory: at every node the heights of the
  two subtrees differ by at most 1, and the stored height is the height of the subtree
  (1 for a leaf, 0 for an absent child).
\<close>

fun avl_inv :: "avl_state \<Rightarrow> addr tree \<Rightarrow> bool" where
  "avl_inv s Leaf = True"
| "avl_inv s (Node l a r) =
     (avl_inv s l \<and> avl_inv s r \<and> height l \<le> height r + 1 \<and> height r \<le> height l + 1 \<and>
      sint (height_of s a) = int (height (Node l a r)))"

text \<open>
  The two invariants one by one: \<open>heights_ok\<close>, every stored height is the height of
  the subtree below the node, and \<open>balanced\<close>, the shape is height-balanced.
\<close>

fun heights_ok :: "avl_state \<Rightarrow> addr tree \<Rightarrow> bool" where
  "heights_ok s Leaf = True"
| "heights_ok s (Node l a r) =
     (heights_ok s l \<and> heights_ok s r \<and> sint (height_of s a) = int (height (Node l a r)))"

fun balanced :: "addr tree \<Rightarrow> bool" where
  "balanced Leaf = True"
| "balanced (Node l a r) =
     (balanced l \<and> balanced r \<and> height l \<le> height r + 1 \<and> height r \<le> height l + 1)"

section \<open>The traversal in the words of the spec\<close>

text \<open>
  The traversal as the spec words it, on the shape of the tree. \<open>leftmost\<close>: walk left
  from the root of a subtree until a node with no left child. \<open>next_spec t a anc\<close>, for a
  node \<open>a\<close> of \<open>t\<close>: the leftmost node of the right subtree of \<open>a\<close> if there is one;
  otherwise the first ancestor reached by a left-child step on the way up, where \<open>anc\<close>
  is what the ascent yields once it leaves \<open>t\<close> through its root (no node, for the
  whole tree).
\<close>

fun leftmost :: "addr tree \<Rightarrow> ptr" where
  "leftmost Leaf = None"
| "leftmost (Node l a r) = (if l = Leaf then Some a else leftmost l)"

fun next_spec :: "addr tree \<Rightarrow> addr \<Rightarrow> ptr \<Rightarrow> ptr" where
  "next_spec Leaf a anc = None"
| "next_spec (Node l b r) a anc =
     (if a = b then (if r \<noteq> Leaf then leftmost r else anc)
      else if a \<in> set_tree l then next_spec l a (Some b)
      else next_spec r a anc)"

section \<open>Rotations on shapes and on fields\<close>

text \<open>The height that \<open>avl_update_height\<close> stores at a node whose children are \<open>p\<close> and \<open>q\<close>.\<close>

definition rot_hd :: "avl_state \<Rightarrow> ptr \<Rightarrow> ptr \<Rightarrow> 8 word" where
  "rot_hd s p q = max_int8 (avl_height_fn s p) (avl_height_fn s q) + 1"

text \<open>
  A rotation on the shape of a tree: \<open>rot_right_at n t\<close> promotes the left child of the
  node \<open>n\<close> of \<open>t\<close>, \<open>rot_left_at n t\<close> its right child.
\<close>

fun rot_right_at :: "addr \<Rightarrow> addr tree \<Rightarrow> addr tree" where
  "rot_right_at n Leaf = Leaf"
| "rot_right_at n (Node l a r) =
     (if a = n then (case l of Leaf \<Rightarrow> Node l a r | Node ll c lr \<Rightarrow> Node ll c (Node lr a r))
      else Node (rot_right_at n l) a (rot_right_at n r))"

fun rot_left_at :: "addr \<Rightarrow> addr tree \<Rightarrow> addr tree" where
  "rot_left_at n Leaf = Leaf"
| "rot_left_at n (Node l a r) =
     (if a = n then (case r of Leaf \<Rightarrow> Node l a r | Node rl c rr \<Rightarrow> Node (Node l a rl) c rr)
      else Node (rot_left_at n l) a (rot_left_at n r))"

text \<open>
  The fields after a rotation in terms of the fields before: \<open>rot_right_rel s s' y x\<close>
  for the right rotation at \<open>y\<close> that promotes \<open>x\<close>, \<open>rot_left_rel s s' x y\<close> for the left
  rotation at \<open>x\<close> that promotes \<open>y\<close>.
\<close>

definition rot_right_rel :: "avl_state \<Rightarrow> avl_state \<Rightarrow> addr \<Rightarrow> addr \<Rightarrow> bool" where
  "rot_right_rel s s' y x =
    (root_node s' = (if parent_of s y = None then Some x else root_node s) \<and>
     (\<forall>a. parent_of s' a = (if a = y then Some x else if a = x then parent_of s y
                            else if right_of s x = Some a then Some y else parent_of s a)) \<and>
     (\<forall>a. left_of s' a = (if a = y then right_of s x
                          else if parent_of s y = Some a \<and> left_of s a = Some y then Some x
                          else left_of s a)) \<and>
     (\<forall>a. right_of s' a = (if a = x then Some y
                           else if parent_of s y = Some a \<and> left_of s a \<noteq> Some y then Some x
                           else right_of s a)) \<and>
     (\<forall>a. height_of s' a =
        (if a = y then rot_hd s (right_of s x) (right_of s y)
         else if a = x then max_int8 (avl_height_fn s (left_of s x)) (rot_hd s (right_of s x) (right_of s y)) + 1
         else height_of s a)))"

definition rot_left_rel :: "avl_state \<Rightarrow> avl_state \<Rightarrow> addr \<Rightarrow> addr \<Rightarrow> bool" where
  "rot_left_rel s s' x y =
    (root_node s' = (if parent_of s x = None then Some y else root_node s) \<and>
     (\<forall>a. parent_of s' a = (if a = x then Some y else if a = y then parent_of s x
                            else if left_of s y = Some a then Some x else parent_of s a)) \<and>
     (\<forall>a. left_of s' a = (if a = y then Some x
                          else if parent_of s x = Some a \<and> left_of s a = Some x then Some y
                          else left_of s a)) \<and>
     (\<forall>a. right_of s' a = (if a = x then left_of s y
                           else if parent_of s x = Some a \<and> left_of s a \<noteq> Some x then Some y
                           else right_of s a)) \<and>
     (\<forall>a. height_of s' a =
        (if a = x then rot_hd s (left_of s x) (left_of s y)
         else if a = y then max_int8 (rot_hd s (left_of s x) (left_of s y)) (avl_height_fn s (right_of s y)) + 1
         else height_of s a)))"

text \<open>
  What a rotation at \<open>n\<close> that promotes \<open>c\<close> does to the stored heights and to the
  slot that pointed to \<open>n\<close>. Heights: no node but \<open>n\<close> and \<open>c\<close> has its height changed;
  the height of the demoted node \<open>n\<close> is recomputed from its new children, whose heights
  are the old ones; the height of \<open>c\<close> is recomputed after that, from its children in the
  final state, \<open>n\<close> with its new height among them. Slot: the root pointer when \<open>n\<close> had
  no parent, else the left slot of the parent if it pointed to \<open>n\<close> and the right slot
  if not, the other slot and the root pointer being left alone.
\<close>

definition heights_recomputed :: "avl_state \<Rightarrow> avl_state \<Rightarrow> addr \<Rightarrow> addr \<Rightarrow> bool" where
  "heights_recomputed s s' n c =
     ((\<forall>a. a \<noteq> n \<and> a \<noteq> c \<longrightarrow> height_of s' a = height_of s a) \<and>
      height_of s' n = rot_hd s (left_of s' n) (right_of s' n) \<and>
      height_of s' c = rot_hd s' (left_of s' c) (right_of s' c))"

definition slot_rewritten :: "avl_state \<Rightarrow> avl_state \<Rightarrow> addr \<Rightarrow> addr \<Rightarrow> bool" where
  "slot_rewritten s s' n c =
     (case parent_of s n of
        None \<Rightarrow> root_node s' = Some c
      | Some g \<Rightarrow> root_node s' = root_node s \<and>
          (if left_of s g = Some n then left_of s' g = Some c \<and> right_of s' g = right_of s g
           else right_of s' g = Some c \<and> left_of s' g = left_of s g))"

text \<open>
  \<open>frame s s' T par p p'\<close>: going from \<open>s\<close> to \<open>s'\<close>, nothing outside the set \<open>T\<close> of
  nodes changes, except that the slot of the parent \<open>par\<close> (or the root pointer, for
  no parent) that held \<open>p\<close> now holds \<open>p'\<close>. As in the code, the left slot is written
  when it held \<open>p\<close>, the right slot otherwise.
\<close>

definition frame :: "avl_state \<Rightarrow> avl_state \<Rightarrow> addr set \<Rightarrow> ptr \<Rightarrow> ptr \<Rightarrow> ptr \<Rightarrow> bool" where
  "frame s s' T par p p' =
     ((\<forall>a. a \<notin> T \<longrightarrow>
         parent_of s' a = parent_of s a \<and> height_of s' a = height_of s a \<and>
         (par \<noteq> Some a \<longrightarrow> left_of s' a = left_of s a \<and> right_of s' a = right_of s a)) \<and>
      (case par of
         None \<Rightarrow> root_node s = p \<longrightarrow> root_node s' = p'
       | Some g \<Rightarrow> root_node s' = root_node s \<and>
           (if left_of s g = p then left_of s' g = p' \<and> right_of s' g = right_of s g
            else left_of s' g = left_of s g \<and> (right_of s g = p \<longrightarrow> right_of s' g = p'))))"

text \<open>
  What one visit of the walk does to the shape of the subtree \<open>Node l b r\<close> below the
  visited node \<open>b\<close>, in terms of the true heights of the subtrees: a left-heavy node is
  rotated right, after a left rotation of its left child when that child leans right;
  symmetrically for a right-heavy node.
\<close>

definition bal_node :: "addr tree \<Rightarrow> addr \<Rightarrow> addr tree \<Rightarrow> addr tree" where
  "bal_node l b r =
     (if height r + 1 < height l then
        (case l of
           Leaf \<Rightarrow> Node l b r
         | Node ll c lr \<Rightarrow>
             if height ll < height lr
             then (case lr of Leaf \<Rightarrow> Node l b r
                   | Node m d m' \<Rightarrow> Node (Node ll c m) d (Node m' b r))
             else Node ll c (Node lr b r))
      else if height l + 1 < height r then
        (case r of
           Leaf \<Rightarrow> Node l b r
         | Node rl c rr \<Rightarrow>
             if height rr < height rl
             then (case rl of Leaf \<Rightarrow> Node l b r
                   | Node m d m' \<Rightarrow> Node (Node l b m) d (Node m' c rr))
             else Node (Node l b rl) c rr)
      else Node l b r)"

section \<open>The rebalance walk and the splice in the words of the spec\<close>

text \<open>
  One visit in the words of the spec. The balance of a node is the difference of the
  stored heights of its children, as an integer. The visit recomputes the height of
  the node; when the balance is above 1 it rotates left at the left child exactly when
  the balance of that child is negative and then rotates right at the node; when the
  balance is below -1 it rotates right at the right child exactly when the balance of
  that child is positive and then rotates left at the node.
\<close>

definition balance_of :: "avl_state \<Rightarrow> addr \<Rightarrow> int" where
  "balance_of s n = sint (avl_height_fn s (left_of s n)) - sint (avl_height_fn s (right_of s n))"

definition rebalance_step_spec :: "addr \<Rightarrow> avl_state \<Rightarrow> avl_state option" where
  "rebalance_step_spec n s0 = do {
     s1 \<leftarrow> avl_update_height (Some n) s0;
     if 1 < balance_of s1 n then do {
       l \<leftarrow> left_of s1 n;
       s2 \<leftarrow> (if balance_of s1 l < 0 then avl_rotate_left (Some l) s1 else Some s1);
       avl_rotate_right (Some n) s2
     } else if balance_of s1 n < - 1 then do {
       r \<leftarrow> right_of s1 n;
       s2 \<leftarrow> (if 0 < balance_of s1 r then avl_rotate_right (Some r) s1 else Some s1);
       avl_rotate_left (Some n) s2
     } else Some s1
   }"

text \<open>Every stored height is that of a tree of at most 126 levels.\<close>

definition heights_in_range :: "avl_state \<Rightarrow> bool" where
  "heights_in_range s = (\<forall>a. 0 \<le> sint (height_of s a) \<and> sint (height_of s a) < 127)"

text \<open>
  The nodes that the loop of \<open>avl_rebalance\<close> visits: \<open>walk n s vs s'\<close> holds when the loop
  started at \<open>n\<close> in state \<open>s\<close> runs its body at the nodes \<open>vs\<close>, in this order, and leaves
  the loop in state \<open>s'\<close>. As in the code, the node after \<open>a\<close> is the parent of \<open>a\<close> in
  the state that the body has left.
\<close>

inductive walk :: "ptr \<Rightarrow> avl_state \<Rightarrow> addr list \<Rightarrow> avl_state \<Rightarrow> bool" where
  walk_done: "walk None s [] s"
| walk_step: "avl_rebalance_body a s = Some s1 \<Longrightarrow> walk (parent_of s1 a) s1 vs s' \<Longrightarrow>
     walk (Some a) s (a # vs) s'"

code_pred walk .

text \<open>The nodes from \<open>a\<close> up to the root of the tree \<open>t\<close>, \<open>a\<close> first.\<close>

fun path_up :: "addr tree \<Rightarrow> addr \<Rightarrow> addr list" where
  "path_up Leaf a = []"
| "path_up (Node l b r) a =
     (if a = b then [b] else if a \<in> set_tree l then path_up l a @ [b] else path_up r a @ [b])"

text \<open>
  The splice of \<open>avl_erase\<close> in the words of the spec, for a node \<open>e\<close> with at most one
  child. \<open>sole_child s e\<close> is that child, or null. \<open>spliced_out s s' e\<close>: from \<open>s\<close> to
  \<open>s'\<close> the slot of the parent of \<open>e\<close> that pointed to \<open>e\<close> (the root pointer, if \<open>e\<close>
  has no parent) is rewritten to the sole child, the parent link of that child is
  rewritten to the parent of \<open>e\<close>, and nothing else changes.
\<close>

definition sole_child :: "avl_state \<Rightarrow> addr \<Rightarrow> ptr" where
  "sole_child s e = (if left_of s e = None then right_of s e else left_of s e)"

definition spliced_out :: "avl_state \<Rightarrow> avl_state \<Rightarrow> addr \<Rightarrow> bool" where
  "spliced_out s s' e =
     ((case parent_of s e of
         None \<Rightarrow> root_node s' = sole_child s e
       | Some g \<Rightarrow> root_node s' = root_node s \<and>
           (if left_of s g = Some e
            then left_of s' g = sole_child s e \<and> right_of s' g = right_of s g
            else right_of s' g = sole_child s e \<and> left_of s' g = left_of s g)) \<and>
      (\<forall>x. sole_child s e = Some x \<longrightarrow> parent_of s' x = parent_of s e) \<and>
      (\<forall>a. parent_of s e \<noteq> Some a \<longrightarrow> left_of s' a = left_of s a \<and> right_of s' a = right_of s a) \<and>
      (\<forall>a. sole_child s e \<noteq> Some a \<longrightarrow> parent_of s' a = parent_of s a) \<and>
      (\<forall>a. height_of s' a = height_of s a))"

section \<open>The path from a subtree to the root\<close>

text \<open>
  The path from a subtree up to the root: for each node on the way, whether the path
  comes from its left or from its right child, and the subtree on the other side. The
  head of the list is the node right above the subtree. \<open>plug t c\<close> is the whole tree,
  with \<open>t\<close> at the lower end of the path \<open>c\<close>.
\<close>

datatype crumb = In_left addr "addr tree" | In_right addr "addr tree"

fun plug :: "addr tree \<Rightarrow> crumb list \<Rightarrow> addr tree" where
  "plug t [] = t"
| "plug t (In_left b sib # c) = plug (Node t b sib) c"
| "plug t (In_right b sib # c) = plug (Node sib b t) c"

fun above :: "crumb list \<Rightarrow> ptr" where
  "above [] = None"
| "above (In_left b sib # c) = Some b"
| "above (In_right b sib # c) = Some b"

fun crumb_node :: "crumb \<Rightarrow> addr" where
  "crumb_node (In_left b sib) = b"
| "crumb_node (In_right b sib) = b"

fun crumb_nodes :: "crumb list \<Rightarrow> addr set" where
  "crumb_nodes [] = {}"
| "crumb_nodes (In_left b sib # c) = insert b (set_tree sib) \<union> crumb_nodes c"
| "crumb_nodes (In_right b sib # c) = insert b (set_tree sib) \<union> crumb_nodes c"

fun ctx_pre :: "crumb list \<Rightarrow> addr list" where
  "ctx_pre [] = []"
| "ctx_pre (In_left b sib # c) = ctx_pre c"
| "ctx_pre (In_right b sib # c) = ctx_pre c @ inorder sib @ [b]"

fun ctx_post :: "crumb list \<Rightarrow> addr list" where
  "ctx_post [] = []"
| "ctx_post (In_left b sib # c) = b # inorder sib @ ctx_post c"
| "ctx_post (In_right b sib # c) = ctx_post c"

text \<open>
  \<open>is_ctx s p c\<close>: the path \<open>c\<close> is in memory, with the pointer \<open>p\<close> in the slot at its
  lower end (the root pointer, for the empty path).
\<close>

fun is_ctx :: "avl_state \<Rightarrow> ptr \<Rightarrow> crumb list \<Rightarrow> bool" where
  "is_ctx s p [] = (root_node s = p)"
| "is_ctx s p (In_left b sib # c) =
     (left_of s b = p \<and> parent_of s b = above c \<and> is_tree s (Some b) (right_of s b) sib \<and>
      is_ctx s (Some b) c)"
| "is_ctx s p (In_right b sib # c) =
     (right_of s b = p \<and> parent_of s b = above c \<and> is_tree s (Some b) (left_of s b) sib \<and>
      is_ctx s (Some b) c)"

text \<open>
  \<open>ctx_ok s h c\<close>: along the path \<open>c\<close>, every subtree on the other side is balanced with
  correct stored heights, and the tree would be balanced everywhere on the path if
  the subtree at its lower end had height \<open>h\<close>.
\<close>

fun ctx_ok :: "avl_state \<Rightarrow> nat \<Rightarrow> crumb list \<Rightarrow> bool" where
  "ctx_ok s h [] = (h \<le> 127)"
| "ctx_ok s h (In_left b sib # c) =
     (heights_ok s sib \<and> balanced sib \<and> h \<le> height sib + 1 \<and> height sib \<le> h + 1 \<and>
      ctx_ok s (max h (height sib) + 1) c)"
| "ctx_ok s h (In_right b sib # c) =
     (heights_ok s sib \<and> balanced sib \<and> h \<le> height sib + 1 \<and> height sib \<le> h + 1 \<and>
      ctx_ok s (max h (height sib) + 1) c)"

section \<open>The walk on the shape of the tree\<close>

text \<open>
  One visit in the words of the spec, on the shape of the subtree below the visited
  node and with the true heights. The balance of a tree is the height of its left
  subtree minus the height of its right subtree. When the balance is above 1, the left
  subtree is rotated left exactly when its own balance is negative, and then the tree
  is rotated right; when it is below -1, the right subtree is rotated right exactly
  when its own balance is positive, and then the tree is rotated left; otherwise the
  shape stays.
\<close>

definition tree_balance :: "addr tree \<Rightarrow> int" where
  "tree_balance t = (case t of Leaf \<Rightarrow> 0 | Node l a r \<Rightarrow> int (height l) - int (height r))"

definition rot_left_root :: "addr tree \<Rightarrow> addr tree" where
  "rot_left_root t = (case t of Leaf \<Rightarrow> Leaf | Node l a r \<Rightarrow> rot_left_at a t)"

definition rot_right_root :: "addr tree \<Rightarrow> addr tree" where
  "rot_right_root t = (case t of Leaf \<Rightarrow> Leaf | Node l a r \<Rightarrow> rot_right_at a t)"

definition visit_spec :: "addr tree \<Rightarrow> addr tree" where
  "visit_spec t =
     (case t of
        Leaf \<Rightarrow> Leaf
      | Node l b r \<Rightarrow>
          if 1 < tree_balance t
          then rot_right_root (Node (if tree_balance l < 0 then rot_left_root l else l) b r)
          else if tree_balance t < - 1
          then rot_left_root (Node l b (if 0 < tree_balance r then rot_right_root r else r))
          else t)"

text \<open>
  The walk on shapes, from the node above the subtree \<open>t\<close> along the path \<open>c\<close>:
  \<open>rebalanced t c\<close> is the tree it leaves and \<open>visited t c\<close> the nodes it visits. Each
  node of the path is visited with the subtree that the visits below it have left;
  when the visit of \<open>b\<close> rotates, the node promoted to the root of the subtree is the
  parent of \<open>b\<close> and is visited next, before the next node of the path.
\<close>

definition promoted :: "addr \<Rightarrow> addr tree \<Rightarrow> addr list" where
  "promoted b t = (case t of Leaf \<Rightarrow> [] | Node l x r \<Rightarrow> if x = b then [] else [x])"

fun rebalanced :: "addr tree \<Rightarrow> crumb list \<Rightarrow> addr tree" where
  "rebalanced t [] = t"
| "rebalanced t (In_left b sib # c) = rebalanced (visit_spec (Node t b sib)) c"
| "rebalanced t (In_right b sib # c) = rebalanced (visit_spec (Node sib b t)) c"

fun visited :: "addr tree \<Rightarrow> crumb list \<Rightarrow> addr list" where
  "visited t [] = []"
| "visited t (In_left b sib # c) =
     b # promoted b (visit_spec (Node t b sib)) @ visited (visit_spec (Node t b sib)) c"
| "visited t (In_right b sib # c) =
     b # promoted b (visit_spec (Node sib b t)) @ visited (visit_spec (Node sib b t)) c"

text \<open>
  The flag that \<^verbatim>\<open>avl_link_node\<close> is given for the slot at the lower end of a path: true
  for the left slot of the node above.
\<close>

fun hole_left :: "crumb list \<Rightarrow> bool" where
  "hole_left [] = False"
| "hole_left (In_left b sib # c) = True"
| "hole_left (In_right b sib # c) = False"

text \<open>
  The states in which the walk is started: \<open>walk_pre s t h c\<close> holds when the tree
  \<open>plug t c\<close> is well-formed in \<open>s\<close> and not higher than an \<^verbatim>\<open>int8_t\<close> can count, the
  subtree \<open>t\<close> is balanced with correct stored heights, so is every subtree that hangs
  off the path \<open>c\<close>, the path would be balanced if \<open>t\<close> had height \<open>h\<close>, and the height
  of \<open>t\<close> differs from \<open>h\<close> by at most one. The stored heights of the nodes of the path are
  not constrained. This is the state after a leaf is linked into an AVL tree (\<open>h\<close> is
  0, \<open>t\<close> the leaf) and after a node with at most one child is spliced out of one.
\<close>

definition walk_pre :: "avl_state \<Rightarrow> addr tree \<Rightarrow> nat \<Rightarrow> crumb list \<Rightarrow> bool" where
  "walk_pre s t h c =
     (is_tree s None (root_node s) (plug t c) \<and> distinct (inorder (plug t c)) \<and>
      height (plug t c) \<le> 127 \<and> heights_ok s t \<and> balanced t \<and>
      height t \<le> h + 1 \<and> h \<le> height t + 1 \<and> ctx_ok s h c)"

section \<open>States for closed examples\<close>

text \<open>A node without children, as a tree.\<close>

definition single :: "addr \<Rightarrow> addr tree" where
  "single a = Node Leaf a Leaf"

text \<open>The test node allocated for the \<open>i\<close>-th key of \<open>ks\<close> lives at address \<open>i\<close> (from 1).\<close>

definition node_key :: "int list \<Rightarrow> addr \<Rightarrow> int" where
  "node_key ks a = ks ! (a - 1)"

text \<open>A state for closed examples: node 2 is the root, node 1 its left child.\<close>

definition two_nodes :: avl_state where
  "two_nodes =
     \<lparr>nodes = (\<lambda>a. if a = 2
                     then \<lparr>avl_parent = None, avl_left = Some 1, avl_right = None, avl_height = 2\<rparr>
                     else \<lparr>avl_parent = Some 2, avl_left = None, avl_right = None, avl_height = 1\<rparr>),
      root_node = Some 2\<rparr>"

text \<open>The mirror image of \<open>two_nodes\<close>: node 1 is the root, node 2 its right child.\<close>

definition two_nodes_r :: avl_state where
  "two_nodes_r =
     \<lparr>nodes = (\<lambda>a. if a = 1
                     then \<lparr>avl_parent = None, avl_left = None, avl_right = Some 2, avl_height = 2\<rparr>
                     else \<lparr>avl_parent = Some 1, avl_left = None, avl_right = None, avl_height = 1\<rparr>),
      root_node = Some 1\<rparr>"

text \<open>
  States for closed examples: three nodes in a left chain under node 3, and in a right
  chain under node 1; the height stored at the top node is not yet updated.
\<close>

definition chain3 :: avl_state where
  "chain3 =
     \<lparr>nodes = (\<lambda>a. if a = 3
                     then \<lparr>avl_parent = None, avl_left = Some 2, avl_right = None, avl_height = 2\<rparr>
                     else if a = 2
                     then \<lparr>avl_parent = Some 3, avl_left = Some 1, avl_right = None, avl_height = 2\<rparr>
                     else \<lparr>avl_parent = Some 2, avl_left = None, avl_right = None, avl_height = 1\<rparr>),
      root_node = Some 3\<rparr>"

definition chain3_r :: avl_state where
  "chain3_r =
     \<lparr>nodes = (\<lambda>a. if a = 1
                     then \<lparr>avl_parent = None, avl_left = None, avl_right = Some 2, avl_height = 2\<rparr>
                     else if a = 2
                     then \<lparr>avl_parent = Some 1, avl_left = None, avl_right = Some 3, avl_height = 2\<rparr>
                     else \<lparr>avl_parent = Some 2, avl_left = None, avl_right = None, avl_height = 1\<rparr>),
      root_node = Some 1\<rparr>"

section \<open>Running the code on concrete inputs\<close>

text \<open>
  The simplifier runs the model on concrete inputs with the defining equations below.
  The congruence rule makes it evaluate the first argument of a bind before it looks
  at the continuation.
\<close>

lemma bind_weak_cong: "m = m' \<Longrightarrow> Option.bind m f = Option.bind m' f"
  by simp

lemmas avl_exec =
  node_key_def empty_tree_def avl_insert_key_def avl_insert_key_walk.simps read_link_def
  avl_link_node_def avl_insert_color_def avl_rebalance.simps avl_rebalance_body_def
  avl_rotate_left_def avl_rotate_right_def avl_update_height_def avl_height_fn_def
  avl_init_node_def max_int8_def set_parent_def set_left_def set_right_def set_height_def
  set_root_def parent_of_def left_of_def right_of_def height_of_def avl_first_def
  avl_next_def avl_next_ascend.simps avl_subtree_min.simps print_inorder_def
  print_inorder_from.simps avl_erase_def wf_tree_def single_def word_sless_alt Let_def

lemma is_tree_unique: "is_tree s par p t \<Longrightarrow> is_tree s par p t' \<Longrightarrow> t = t'"
proof (induction t arbitrary: par p t')
  case Leaf
  then show ?case by (cases t') auto
next
  case (Node l a r)
  then show ?case by (cases t') auto
qed

section \<open>Reading a field after a write\<close>

lemma get_set [simp]:
  "parent_of (set_parent a v s) b = (if b = a then v else parent_of s b)"
  "parent_of (set_left a v s) b = parent_of s b"
  "parent_of (set_right a v s) b = parent_of s b"
  "parent_of (set_height a w s) b = parent_of s b"
  "parent_of (set_root v s) b = parent_of s b"
  "left_of (set_parent a v s) b = left_of s b"
  "left_of (set_left a v s) b = (if b = a then v else left_of s b)"
  "left_of (set_right a v s) b = left_of s b"
  "left_of (set_height a w s) b = left_of s b"
  "left_of (set_root v s) b = left_of s b"
  "right_of (set_parent a v s) b = right_of s b"
  "right_of (set_left a v s) b = right_of s b"
  "right_of (set_right a v s) b = (if b = a then v else right_of s b)"
  "right_of (set_height a w s) b = right_of s b"
  "right_of (set_root v s) b = right_of s b"
  "height_of (set_parent a v s) b = height_of s b"
  "height_of (set_left a v s) b = height_of s b"
  "height_of (set_right a v s) b = height_of s b"
  "height_of (set_height a w s) b = (if b = a then w else height_of s b)"
  "height_of (set_root v s) b = height_of s b"
  "root_node (set_parent a v s) = root_node s"
  "root_node (set_left a v s) = root_node s"
  "root_node (set_right a v s) = root_node s"
  "root_node (set_height a w s) = root_node s"
  "root_node (set_root v s) = v"
  by (simp_all add: parent_of_def left_of_def right_of_def height_of_def
      set_parent_def set_left_def set_right_def set_height_def set_root_def)

section \<open>Traversal is read-only\<close>

lemma subtree_min_snd: "avl_subtree_min n s = Some y \<Longrightarrow> snd y = s"
  by (rule avl_subtree_min.raw_induct [where P = "\<lambda>n s y. snd y = s"])
    (auto split: option.splits)

lemma next_ascend_snd: "avl_next_ascend n s = Some y \<Longrightarrow> snd y = s"
  by (rule avl_next_ascend.raw_induct [where P = "\<lambda>n s y. snd y = s"])
    (auto split: option.splits if_splits)

lemma subtree_min_state: "avl_subtree_min n s = Some (r, s') \<Longrightarrow> s' = s"
  using subtree_min_snd by fastforce

lemma next_ascend_state: "avl_next_ascend n s = Some (r, s') \<Longrightarrow> s' = s"
  using next_ascend_snd by fastforce

text \<open>
  Claim C10. \<open>avl_first\<close> and \<open>avl_next\<close> never modify the tree: whenever either returns,
  the state it returns, that is every field of every node and the root pointer, is the
  state it was called in.
\<close>

theorem traversal_read_only:
  "(avl_first s = Some (r, s') \<longrightarrow> s' = s) \<and> (avl_next n s = Some (r', s'') \<longrightarrow> s'' = s)"
  by (auto simp: avl_first_def avl_next_def dest: subtree_min_state next_ascend_state
      split: if_splits bind_splits)

theorem traversal_read_only_witness:
  "avl_first two_nodes = Some (Some 1, two_nodes) \<and>
   avl_next (Some 1) two_nodes = Some (Some 2, two_nodes)"
  using traversal_read_only [of two_nodes "Some 1" two_nodes "Some 1" "Some 2" two_nodes]
  by (simp add: two_nodes_def avl_first_def avl_next_def avl_subtree_min.simps
      avl_next_ascend.simps left_of_def right_of_def parent_of_def)

section \<open>The effect of a rotation on the fields\<close>

text \<open>
  When the rotated node, the promoted child, the inner grandchild and the parent are
  different nodes, a rotation returns, and every field of the state it returns is
  given in terms of the state before.
\<close>

lemma avl_height_fn_cong:
  "(\<And>a. p = Some a \<Longrightarrow> height_of s' a = height_of s a) \<Longrightarrow> avl_height_fn s' p = avl_height_fn s p"
  by (cases p) (auto simp: avl_height_fn_def)

lemma rotate_right_effect:
  assumes xy: "left_of s y = Some x" "x \<noteq> y" "left_of s x \<noteq> Some y"
    and b: "right_of s x \<noteq> Some x" "right_of s x \<noteq> Some y"
    and g: "parent_of s y \<noteq> Some x" "parent_of s y \<noteq> Some y"
  shows "\<exists>s'. avl_rotate_right (Some y) s = Some s' \<and>
     root_node s' = (if parent_of s y = None then Some x else root_node s) \<and>
     (\<forall>a. parent_of s' a = (if a = y then Some x else if a = x then parent_of s y
                            else if right_of s x = Some a then Some y else parent_of s a)) \<and>
     (\<forall>a. left_of s' a = (if a = y then right_of s x
                          else if parent_of s y = Some a \<and> left_of s a = Some y then Some x
                          else left_of s a)) \<and>
     (\<forall>a. right_of s' a = (if a = x then Some y
                           else if parent_of s y = Some a \<and> left_of s a \<noteq> Some y then Some x
                           else right_of s a)) \<and>
     (\<forall>a. height_of s' a =
        (if a = y then rot_hd s (right_of s x) (right_of s y)
         else if a = x then max_int8 (avl_height_fn s (left_of s x)) (rot_hd s (right_of s x) (right_of s y)) + 1
         else height_of s a))"
proof -
  define s1 where "s1 = set_left y (right_of s x) s"
  define s2 where "s2 = (case right_of s1 x of None \<Rightarrow> s1 | Some c \<Rightarrow> set_parent c (Some y) s1)"
  define s3 where "s3 = set_parent x (parent_of s2 y) s2"
  define s4 where "s4 = (case parent_of s3 y of None \<Rightarrow> set_root (Some x) s3
               | Some p \<Rightarrow> if Some y = left_of s3 p then set_left p (Some x) s3 else set_right p (Some x) s3)"
  define s5 where "s5 = set_right x (Some y) s4"
  define s6 where "s6 = set_parent y (Some x) s5"
  define s7 where "s7 = set_height y (rot_hd s6 (left_of s6 y) (right_of s6 y)) s6"
  define s8 where "s8 = set_height x (rot_hd s7 (left_of s7 x) (right_of s7 x)) s7"
  have run: "avl_rotate_right (Some y) s = Some s8"
    unfolding avl_rotate_right_def avl_update_height_def s8_def s7_def s6_def s5_def s4_def s3_def
      s2_def s1_def rot_hd_def Let_def
    by (simp only: xy(1) Option.bind.simps)
  have f1: "parent_of s1 a = parent_of s a" "right_of s1 a = right_of s a"
    "left_of s1 a = (if a = y then right_of s x else left_of s a)"
    "height_of s1 a = height_of s a" "root_node s1 = root_node s" for a
    by (simp_all add: s1_def)
  have f2: "parent_of s2 a = (if right_of s x = Some a then Some y else parent_of s a)"
    "right_of s2 a = right_of s a" "left_of s2 a = left_of s1 a"
    "height_of s2 a = height_of s a" "root_node s2 = root_node s" for a
    by (auto simp: s2_def f1 split: option.splits)
  have f3: "parent_of s3 a = (if a = x then parent_of s y else parent_of s2 a)"
    "right_of s3 a = right_of s a" "left_of s3 a = left_of s1 a"
    "height_of s3 a = height_of s a" "root_node s3 = root_node s" for a
    using b by (auto simp: s3_def f2)
  have py: "parent_of s3 y = parent_of s y"
    using xy b by (simp add: f3 f2)
  have f4: "parent_of s4 a = parent_of s3 a \<and>
    right_of s4 a = (if parent_of s y = Some a \<and> left_of s a \<noteq> Some y then Some x else right_of s a) \<and>
    left_of s4 a = (if a = y then right_of s x
                          else if parent_of s y = Some a \<and> left_of s a = Some y then Some x
                          else left_of s a) \<and>
    height_of s4 a = height_of s a \<and>
    root_node s4 = (if parent_of s y = None then Some x else root_node s)" for a
  proof (cases "parent_of s y")
    case None
    then have "s4 = set_root (Some x) s3" by (simp add: s4_def py)
    with None show ?thesis by (simp add: f3 f1)
  next
    case (Some p)
    with g have p: "p \<noteq> y" "p \<noteq> x" by auto
    have s4: "s4 = (if Some y = left_of s3 p then set_left p (Some x) s3 else set_right p (Some x) s3)"
      by (simp add: s4_def py Some)
    have l3: "left_of s3 p = left_of s p" using p by (simp add: f3 f1)
    show ?thesis
    proof (cases "left_of s p = Some y")
      case True
      with s4 l3 have "s4 = set_left p (Some x) s3" by simp
      with Some True p show ?thesis by (simp add: f3 f1)
    next
      case False
      with s4 l3 have "s4 = set_right p (Some x) s3" by auto
      with Some False p show ?thesis by (auto simp: f3 f1)
    qed
  qed
  have f6: "parent_of s6 a = (if a = y then Some x else parent_of s3 a)"
    "right_of s6 a = (if a = x then Some y else right_of s4 a)"
    "left_of s6 a = left_of s4 a"
    "height_of s6 a = height_of s a"
    "root_node s6 = root_node s4" for a
    by (simp_all add: s6_def s5_def f4)
  have h6: "avl_height_fn s6 p = avl_height_fn s p" for p
    by (cases p) (simp_all add: avl_height_fn_def f6)
  have hy: "rot_hd s6 (left_of s6 y) (right_of s6 y) = rot_hd s (right_of s x) (right_of s y)"
    using xy g by (simp add: f6 f4 rot_hd_def h6)
  have s7': "s7 = set_height y (rot_hd s (right_of s x) (right_of s y)) s6"
    by (simp only: s7_def hy)
  have f7: "parent_of s7 a = parent_of s6 a" "right_of s7 a = right_of s6 a"
    "left_of s7 a = left_of s6 a"
    "height_of s7 a = (if a = y then rot_hd s (right_of s x) (right_of s y) else height_of s a)"
    "root_node s7 = root_node s6" for a
    by (simp_all add: s7' f6)
  have lx: "left_of s7 x = left_of s x" "right_of s7 x = Some y"
    using xy g by (auto simp: f7 f6 f4)
  have hl: "avl_height_fn s7 (left_of s x) = avl_height_fn s (left_of s x)"
    using xy(3) by (intro avl_height_fn_cong) (simp add: f7)
  have hyy: "avl_height_fn s7 (Some y) = rot_hd s (right_of s x) (right_of s y)"
    by (simp add: avl_height_fn_def f7)
  have hx: "rot_hd s7 (left_of s7 x) (right_of s7 x) =
      max_int8 (avl_height_fn s (left_of s x)) (rot_hd s (right_of s x) (right_of s y)) + 1"
    by (simp only: lx rot_hd_def [of s7] hl hyy)
  have s8': "s8 = set_height x (max_int8 (avl_height_fn s (left_of s x)) (rot_hd s (right_of s x) (right_of s y)) + 1) s7"
    by (simp only: s8_def hx)
  have f8: "parent_of s8 a = parent_of s6 a" "right_of s8 a = right_of s6 a"
    "left_of s8 a = left_of s6 a"
    "height_of s8 a = (if a = x then max_int8 (avl_height_fn s (left_of s x)) (rot_hd s (right_of s x) (right_of s y)) + 1 else height_of s7 a)"
    "root_node s8 = root_node s6" for a
    by (simp_all add: s8' f7)
  show ?thesis
    using xy(2) by (intro exI [of _ s8]) (simp add: run f8 f7 f6 f4 f3 f2)
qed

lemma rotate_left_effect:
  assumes xy: "right_of s x = Some y" "y \<noteq> x" "right_of s y \<noteq> Some x"
    and b: "left_of s y \<noteq> Some y" "left_of s y \<noteq> Some x"
    and g: "parent_of s x \<noteq> Some y" "parent_of s x \<noteq> Some x"
  shows "\<exists>s'. avl_rotate_left (Some x) s = Some s' \<and>
     root_node s' = (if parent_of s x = None then Some y else root_node s) \<and>
     (\<forall>a. parent_of s' a = (if a = x then Some y else if a = y then parent_of s x
                            else if left_of s y = Some a then Some x else parent_of s a)) \<and>
     (\<forall>a. left_of s' a = (if a = y then Some x
                          else if parent_of s x = Some a \<and> left_of s a = Some x then Some y
                          else left_of s a)) \<and>
     (\<forall>a. right_of s' a = (if a = x then left_of s y
                           else if parent_of s x = Some a \<and> left_of s a \<noteq> Some x then Some y
                           else right_of s a)) \<and>
     (\<forall>a. height_of s' a =
        (if a = x then rot_hd s (left_of s x) (left_of s y)
         else if a = y then max_int8 (rot_hd s (left_of s x) (left_of s y)) (avl_height_fn s (right_of s y)) + 1
         else height_of s a))"
proof -
  define s1 where "s1 = set_right x (left_of s y) s"
  define s2 where "s2 = (case left_of s1 y of None \<Rightarrow> s1 | Some c \<Rightarrow> set_parent c (Some x) s1)"
  define s3 where "s3 = set_parent y (parent_of s2 x) s2"
  define s4 where "s4 = (case parent_of s3 x of None \<Rightarrow> set_root (Some y) s3
               | Some p \<Rightarrow> if Some x = left_of s3 p then set_left p (Some y) s3 else set_right p (Some y) s3)"
  define s5 where "s5 = set_left y (Some x) s4"
  define s6 where "s6 = set_parent x (Some y) s5"
  define s7 where "s7 = set_height x (rot_hd s6 (left_of s6 x) (right_of s6 x)) s6"
  define s8 where "s8 = set_height y (rot_hd s7 (left_of s7 y) (right_of s7 y)) s7"
  have run: "avl_rotate_left (Some x) s = Some s8"
    unfolding avl_rotate_left_def avl_update_height_def s8_def s7_def s6_def s5_def s4_def s3_def
      s2_def s1_def rot_hd_def Let_def
    by (simp only: xy(1) Option.bind.simps)
  have f1: "parent_of s1 a = parent_of s a" "left_of s1 a = left_of s a"
    "right_of s1 a = (if a = x then left_of s y else right_of s a)"
    "height_of s1 a = height_of s a" "root_node s1 = root_node s" for a
    by (simp_all add: s1_def)
  have f2: "parent_of s2 a = (if left_of s y = Some a then Some x else parent_of s a)"
    "left_of s2 a = left_of s a" "right_of s2 a = right_of s1 a"
    "height_of s2 a = height_of s a" "root_node s2 = root_node s" for a
    by (auto simp: s2_def f1 split: option.splits)
  have f3: "parent_of s3 a = (if a = y then parent_of s x else parent_of s2 a)"
    "left_of s3 a = left_of s a" "right_of s3 a = right_of s1 a"
    "height_of s3 a = height_of s a" "root_node s3 = root_node s" for a
    using b by (auto simp: s3_def f2)
  have px: "parent_of s3 x = parent_of s x"
    using xy b by (simp add: f3 f2)
  have f4: "parent_of s4 a = parent_of s3 a \<and>
    right_of s4 a = (if a = x then left_of s y
                     else if parent_of s x = Some a \<and> left_of s a \<noteq> Some x then Some y
                     else right_of s a) \<and>
    left_of s4 a = (if parent_of s x = Some a \<and> left_of s a = Some x then Some y else left_of s a) \<and>
    height_of s4 a = height_of s a \<and>
    root_node s4 = (if parent_of s x = None then Some y else root_node s)" for a
  proof (cases "parent_of s x")
    case None
    then have "s4 = set_root (Some y) s3" by (simp add: s4_def px)
    with None show ?thesis by (simp add: f3 f1)
  next
    case (Some p)
    with g have p: "p \<noteq> x" "p \<noteq> y" by auto
    have s4: "s4 = (if Some x = left_of s3 p then set_left p (Some y) s3 else set_right p (Some y) s3)"
      by (simp add: s4_def px Some)
    have l3: "left_of s3 p = left_of s p" by (simp add: f3)
    show ?thesis
    proof (cases "left_of s p = Some x")
      case True
      with s4 l3 have "s4 = set_left p (Some y) s3" by simp
      with Some True p show ?thesis by (simp add: f3 f1)
    next
      case False
      with s4 l3 have "s4 = set_right p (Some y) s3" by auto
      with Some False p show ?thesis by (auto simp: f3 f1)
    qed
  qed
  have f6: "parent_of s6 a = (if a = x then Some y else parent_of s3 a)"
    "left_of s6 a = (if a = y then Some x else left_of s4 a)"
    "right_of s6 a = right_of s4 a"
    "height_of s6 a = height_of s a"
    "root_node s6 = root_node s4" for a
    by (simp_all add: s6_def s5_def f4)
  have h6: "avl_height_fn s6 p = avl_height_fn s p" for p
    by (cases p) (simp_all add: avl_height_fn_def f6)
  have hx: "rot_hd s6 (left_of s6 x) (right_of s6 x) = rot_hd s (left_of s x) (left_of s y)"
    using xy g by (simp add: f6 f4 rot_hd_def h6)
  have s7': "s7 = set_height x (rot_hd s (left_of s x) (left_of s y)) s6"
    by (simp only: s7_def hx)
  have f7: "parent_of s7 a = parent_of s6 a" "right_of s7 a = right_of s6 a"
    "left_of s7 a = left_of s6 a"
    "height_of s7 a = (if a = x then rot_hd s (left_of s x) (left_of s y) else height_of s a)"
    "root_node s7 = root_node s6" for a
    by (simp_all add: s7' f6)
  have ly: "left_of s7 y = Some x" "right_of s7 y = right_of s y"
    using xy g by (auto simp: f7 f6 f4)
  have hr: "avl_height_fn s7 (right_of s y) = avl_height_fn s (right_of s y)"
    using xy(3) by (intro avl_height_fn_cong) (simp add: f7)
  have hxx: "avl_height_fn s7 (Some x) = rot_hd s (left_of s x) (left_of s y)"
    by (simp add: avl_height_fn_def f7)
  have hy: "rot_hd s7 (left_of s7 y) (right_of s7 y) =
      max_int8 (rot_hd s (left_of s x) (left_of s y)) (avl_height_fn s (right_of s y)) + 1"
    by (simp only: ly rot_hd_def [of s7] hr hxx)
  have s8': "s8 = set_height y (max_int8 (rot_hd s (left_of s x) (left_of s y)) (avl_height_fn s (right_of s y)) + 1) s7"
    by (simp only: s8_def hy)
  have f8: "parent_of s8 a = parent_of s6 a" "right_of s8 a = right_of s6 a"
    "left_of s8 a = left_of s6 a"
    "height_of s8 a = (if a = y then max_int8 (rot_hd s (left_of s x) (left_of s y)) (avl_height_fn s (right_of s y)) + 1 else height_of s7 a)"
    "root_node s8 = root_node s6" for a
    by (simp_all add: s8' f7)
  show ?thesis
    using xy(2) by (intro exI [of _ s8]) (simp add: run f8 f7 f6 f4 f3 f2)
qed

section \<open>Traversal on well-formed trees\<close>

lemma is_tree_None [simp]: "is_tree s par None t = (t = Leaf)"
  by (cases t) auto

lemma is_tree_Some: "is_tree s par (Some a) t \<Longrightarrow> \<exists>l r. t = Node l a r"
  by (cases t) auto

lemma is_tree_parent: "is_tree s par (Some a) t \<Longrightarrow> parent_of s a = par"
  by (cases t) auto

lemma is_tree_root_in: "is_tree s par (Some a) t \<Longrightarrow> a \<in> set_tree t"
  by (cases t) auto

lemma subtree_min_leftmost: "is_tree s par p t \<Longrightarrow> avl_subtree_min p s = Some (leftmost t, s)"
proof (induction t arbitrary: par p)
  case Leaf
  then show ?case by (simp add: avl_subtree_min.simps)
next
  case (Node l a r)
  then have p: "p = Some a" and l: "is_tree s (Some a) (left_of s a) l" by auto
  show ?case
  proof (cases l)
    case Leaf
    with l p show ?thesis by (simp add: avl_subtree_min.simps)
  next
    case (Node ll c lr)
    with l have "left_of s a = Some c" by simp
    moreover have "avl_subtree_min (left_of s a) s = Some (leftmost l, s)"
      using Node.IH(1) [OF l] .
    ultimately show ?thesis using p Node
      by (subst avl_subtree_min.simps) simp
  qed
qed

lemma next_in_subtree:
  assumes "is_tree s par p t" "distinct (inorder t)" "a \<in> set_tree t"
    and "\<And>b. p = Some b \<Longrightarrow> avl_next_ascend b s = Some (anc, s)"
  shows "avl_next (Some a) s = Some (next_spec t a anc, s)"
  using assms
proof (induction t arbitrary: par p anc)
  case Leaf
  then show ?case by simp
next
  case (Node l b r)
  then have p: "p = Some b" and pb: "parent_of s b = par"
    and l: "is_tree s (Some b) (left_of s b) l" and r: "is_tree s (Some b) (right_of s b) r"
    by auto
  have up: "avl_next_ascend b s = Some (anc, s)" using Node.prems(4) p by simp
  show ?case
  proof (cases "a = b")
    case True
    show ?thesis
    proof (cases r)
      case Leaf
      with r have "right_of s b = None" by simp
      with True Leaf up show ?thesis by (simp add: avl_next_def)
    next
      case (Node rl d rr)
      with r have "right_of s b = Some d" by simp
      with True Node subtree_min_leftmost [OF r] show ?thesis by (simp add: avl_next_def)
    qed
  next
    case False
    show ?thesis
    proof (cases "a \<in> set_tree l")
      case True
      have dl: "distinct (inorder l)" using Node.prems(2) by simp
      have "avl_next_ascend c s = Some (Some b, s)" if c: "left_of s b = Some c" for c
      proof -
        from l c obtain ll lr where lc: "l = Node ll c lr" by (auto dest: is_tree_Some)
        with l have pc: "parent_of s c = Some b" by simp
        have "right_of s b \<noteq> Some c"
        proof
          assume "right_of s b = Some c"
          with r have "c \<in> set_tree r" by (auto dest: is_tree_root_in)
          moreover have "c \<in> set_tree l" using lc by simp
          ultimately show False using Node.prems(2) by auto
        qed
        with pc show ?thesis by (subst avl_next_ascend.simps) auto
      qed
      from Node.IH(1) [OF l dl True this] False True show ?thesis by simp
    next
      case nl: False
      with False Node.prems(3) have ar: "a \<in> set_tree r" by auto
      have dr: "distinct (inorder r)" using Node.prems(2) by simp
      have "avl_next_ascend d s = Some (anc, s)" if d: "right_of s b = Some d" for d
      proof -
        from r d obtain rl rr where "r = Node rl d rr" by (auto dest: is_tree_Some)
        with r have "parent_of s d = Some b" by simp
        with d up show ?thesis by (subst avl_next_ascend.simps) auto
      qed
      from Node.IH(2) [OF r dr ar this] False nl show ?thesis by simp
    qed
  qed
qed

text \<open>
  Claim C8. In a well-formed tree \<open>avl_first\<close> returns the node reached by walking left
  from the root until a node with no left child, and no node when the tree is empty;
  for every node of the tree \<open>avl_next\<close> returns the leftmost node of the right subtree
  when there is a right child, and otherwise the first ancestor reached by a left-child
  step on the way up, or no node when the ascent reaches the root without such a step.
  Both calls return, and leave the state as it is.
\<close>

theorem first_next_spec:
  assumes "wf_tree s t"
  shows "avl_first s = Some (leftmost t, s) \<and>
         (\<forall>a \<in> set_tree t. avl_next (Some a) s = Some (next_spec t a None, s))"
proof -
  from assms have t: "is_tree s None (root_node s) t" and d: "distinct (inorder t)"
    by (auto simp: wf_tree_def)
  have "avl_next_ascend b s = Some (None, s)" if "root_node s = Some b" for b
  proof -
    from t that have "parent_of s b = None" by (auto dest: is_tree_parent)
    then show ?thesis by (subst avl_next_ascend.simps) simp
  qed
  with next_in_subtree [OF t d] subtree_min_leftmost [OF t] show ?thesis
    by (simp add: avl_first_def)
qed

theorem first_next_spec_witness:
  "wf_tree two_nodes (Node (single 1) 2 Leaf) \<and>
   avl_first two_nodes = Some (Some 1, two_nodes) \<and>
   avl_next (Some 1) two_nodes = Some (Some 2, two_nodes) \<and>
   avl_next (Some 2) two_nodes = Some (None, two_nodes)"
proof -
  have wf: "wf_tree two_nodes (Node (single 1) 2 Leaf)"
    by (simp add: wf_tree_def single_def two_nodes_def left_of_def right_of_def parent_of_def)
  from first_next_spec [OF wf] wf show ?thesis by (simp add: single_def)
qed

section \<open>Rotations on well-formed trees\<close>

lemma is_tree_frame:
  "is_tree s par p t \<Longrightarrow>
   (\<And>a. a \<in> set_tree t \<Longrightarrow> parent_of s' a = parent_of s a \<and> left_of s' a = left_of s a \<and>
      right_of s' a = right_of s a) \<Longrightarrow>
   is_tree s' par p t"
  by (induction t arbitrary: par p) auto

lemma is_tree_reparent:
  assumes "is_tree s par p t" "distinct (inorder t)"
    and "\<And>a. a \<in> set_tree t \<Longrightarrow> left_of s' a = left_of s a \<and> right_of s' a = right_of s a \<and>
           parent_of s' a = (if p = Some a then par' else parent_of s a)"
  shows "is_tree s' par' p t"
proof (cases t)
  case Leaf
  with assms show ?thesis by simp
next
  case (Node l a r)
  with assms(1) have p: "p = Some a" and l: "is_tree s (Some a) (left_of s a) l"
    and r: "is_tree s (Some a) (right_of s a) r" by auto
  have "is_tree s' (Some a) (left_of s a) l"
    using l assms(2,3) Node p by (intro is_tree_frame [OF l]) auto
  moreover have "is_tree s' (Some a) (right_of s a) r"
    using r assms(2,3) Node p by (intro is_tree_frame [OF r]) auto
  ultimately show ?thesis using assms(3) [of a] Node p by simp
qed

lemma is_tree_child_in:
  "is_tree s par p t \<Longrightarrow> n \<in> set_tree t \<Longrightarrow>
   (left_of s n = Some c \<longrightarrow> c \<in> set_tree t) \<and> (right_of s n = Some c \<longrightarrow> c \<in> set_tree t)"
proof (induction t arbitrary: par p)
  case Leaf
  then show ?case by simp
next
  case (Node l a r)
  then show ?case by (auto dest: is_tree_root_in)
qed

lemma is_tree_parent_in:
  "is_tree s par p t \<Longrightarrow> n \<in> set_tree t \<Longrightarrow>
   (p = Some n \<and> parent_of s n = par) \<or> (\<exists>g \<in> set_tree t. parent_of s n = Some g)"
proof (induction t arbitrary: par p)
  case Leaf
  then show ?case by simp
next
  case (Node l a r)
  then have l: "is_tree s (Some a) (left_of s a) l" and r: "is_tree s (Some a) (right_of s a) r"
    and pa: "p = Some a" "parent_of s a = par"
    by auto
  consider "n = a" | "n \<in> set_tree l" | "n \<in> set_tree r" using Node.prems(2) by auto
  then show ?case
  proof cases
    case 1
    with pa show ?thesis by simp
  next
    case 2
    from Node.IH(1) [OF l 2] show ?thesis by auto
  next
    case 3
    from Node.IH(2) [OF r 3] show ?thesis by auto
  qed
qed

lemma rot_right_at_notin: "n \<notin> set_tree t \<Longrightarrow> rot_right_at n t = t"
  by (induction t) auto

lemma rot_left_at_notin: "n \<notin> set_tree t \<Longrightarrow> rot_left_at n t = t"
  by (induction t) auto

lemma inorder_rot_right_at: "inorder (rot_right_at n t) = inorder t"
  by (induction t) (auto split: tree.splits)

lemma inorder_rot_left_at: "inorder (rot_left_at n t) = inorder t"
  by (induction t) (auto split: tree.splits)

lemma rot_right_is_tree:
  assumes rel: "rot_right_rel s s' n c"
    and t: "is_tree s par p t" and d: "distinct (inorder t)" and n: "n \<in> set_tree t"
    and c: "left_of s n = Some c" and par: "\<And>g. par = Some g \<Longrightarrow> g \<notin> set_tree t"
  shows "is_tree s' par (if p = Some n then Some c else p) (rot_right_at n t)"
  using t d n par
proof (induction t arbitrary: par p)
  case Leaf
  then show ?case by simp
next
  case (Node l a r)
  from rel have P: "\<And>a. parent_of s' a = (if a = n then Some c else if a = c then parent_of s n
                            else if right_of s c = Some a then Some n else parent_of s a)"
    and L: "\<And>a. left_of s' a = (if a = n then right_of s c
                          else if parent_of s n = Some a \<and> left_of s a = Some n then Some c
                          else left_of s a)"
    and R: "\<And>a. right_of s' a = (if a = c then Some n
                           else if parent_of s n = Some a \<and> left_of s a \<noteq> Some n then Some c
                           else right_of s a)"
    by (simp_all add: rot_right_rel_def)
  from Node.prems have pa: "p = Some a" "parent_of s a = par"
    and l: "is_tree s (Some a) (left_of s a) l" and r: "is_tree s (Some a) (right_of s a) r"
    and dl: "distinct (inorder l)" and dr: "distinct (inorder r)"
    and al: "a \<notin> set_tree l" and ar: "a \<notin> set_tree r"
    and lr: "set_tree l \<inter> set_tree r = {}"
    by auto
  show ?case
  proof (cases "a = n")
    case True
    with c l obtain A B where l_eq: "l = Node A c B" by (auto dest: is_tree_Some)
    with l have pc: "parent_of s c = Some a" and A: "is_tree s (Some c) (left_of s c) A"
      and B: "is_tree s (Some c) (right_of s c) B" by auto
    from l_eq al dl lr have cn: "c \<noteq> n" and cA: "c \<notin> set_tree A" and cB: "c \<notin> set_tree B"
      and AB: "set_tree A \<inter> set_tree B = {}" and nA: "n \<notin> set_tree A" and nB: "n \<notin> set_tree B"
      and Ar: "set_tree A \<inter> set_tree r = {}" and Br: "set_tree B \<inter> set_tree r = {}"
      and cr: "c \<notin> set_tree r" and dB: "distinct (inorder B)"
      using True by auto
    have pn: "parent_of s n = par" using pa True by simp
    have par_out: "par \<noteq> Some x" if "x \<in> set_tree (Node l a r)" for x
      using Node.prems(4) that by blast
    have pnc: "parent_of s n \<noteq> Some x" if "x \<in> set_tree (Node l a r)" for x
      using par_out [OF that] pn by simp
    have rootB: "x \<in> set_tree B" if "right_of s c = Some x" for x
      using B that by (auto dest: is_tree_root_in)
    have A': "is_tree s' (Some c) (left_of s c) A"
    proof (rule is_tree_frame [OF A])
      fix x assume x: "x \<in> set_tree A"
      then have "x \<noteq> n" "x \<noteq> c" "right_of s c \<noteq> Some x" "parent_of s n \<noteq> Some x"
        using nA cA AB rootB pnc l_eq by auto
      then show "parent_of s' x = parent_of s x \<and> left_of s' x = left_of s x \<and> right_of s' x = right_of s x"
        by (simp add: P L R)
    qed
    have B': "is_tree s' (Some n) (right_of s c) B"
    proof (rule is_tree_reparent [OF B dB])
      fix x assume x: "x \<in> set_tree B"
      then have "x \<noteq> n" "x \<noteq> c" "parent_of s n \<noteq> Some x"
        using nB cB pnc l_eq by auto
      then show "left_of s' x = left_of s x \<and> right_of s' x = right_of s x \<and>
           parent_of s' x = (if right_of s c = Some x then Some n else parent_of s x)"
        by (simp add: P L R)
    qed
    have r': "is_tree s' (Some n) (right_of s n) r"
    proof (rule is_tree_frame [OF r [unfolded True]])
      fix x assume x: "x \<in> set_tree r"
      then have "x \<noteq> n" "x \<noteq> c" "right_of s c \<noteq> Some x" "parent_of s n \<noteq> Some x"
        using ar cr Br rootB pnc True by auto
      then show "parent_of s' x = parent_of s x \<and> left_of s' x = left_of s x \<and> right_of s' x = right_of s x"
        by (simp add: P L R)
    qed
    have "parent_of s' c = par" "left_of s' c = left_of s c" "right_of s' c = Some n"
      "parent_of s' n = Some c" "left_of s' n = right_of s c" "right_of s' n = right_of s n"
      using cn pn pnc [of c] pnc [of n] l_eq True by (simp_all add: P L R)
    with A' B' r' show ?thesis using True pa l_eq by simp
  next
    case False
    with Node.prems(3) consider "n \<in> set_tree l" | "n \<in> set_tree r" by auto
    then show ?thesis
    proof cases
      case 1
      then have nr: "n \<notin> set_tree r" using lr by auto
      from is_tree_child_in [OF l 1] c have cl: "c \<in> set_tree l" by simp
      have IH: "is_tree s' (Some a) (if left_of s a = Some n then Some c else left_of s a) (rot_right_at n l)"
        using Node.IH(1) [OF l dl 1] al by simp
      have slot: "left_of s a = Some n" if "parent_of s n = Some a"
        using is_tree_parent_in [OF l 1] that al by auto
      have slot2: "parent_of s n = Some a" if "left_of s a = Some n"
        using l that by (auto dest: is_tree_parent)
      have rootB: "x \<in> set_tree l" if "right_of s c = Some x" for x
        using is_tree_child_in [OF l cl] that by simp
      have r': "is_tree s' (Some a) (right_of s a) r"
      proof (rule is_tree_frame [OF r])
        fix x assume x: "x \<in> set_tree r"
        then have "x \<noteq> n" "x \<noteq> c" "right_of s c \<noteq> Some x" using nr cl lr rootB by auto
        moreover have "parent_of s n \<noteq> Some x"
          using is_tree_parent_in [OF l 1] x lr ar by auto
        ultimately show "parent_of s' x = parent_of s x \<and> left_of s' x = left_of s x \<and> right_of s' x = right_of s x"
          by (simp add: P L R)
      qed
      have "a \<noteq> c" "right_of s c \<noteq> Some a" using cl al rootB by auto
      then have "parent_of s' a = par" "right_of s' a = right_of s a"
        "left_of s' a = (if left_of s a = Some n then Some c else left_of s a)"
        using False pa slot slot2 by (auto simp: P L R)
      with IH r' show ?thesis using False pa rot_right_at_notin [OF nr] by simp
    next
      case 2
      then have nl: "n \<notin> set_tree l" using lr by auto
      from is_tree_child_in [OF r 2] c have cr: "c \<in> set_tree r" by simp
      have IH: "is_tree s' (Some a) (if right_of s a = Some n then Some c else right_of s a) (rot_right_at n r)"
        using Node.IH(2) [OF r dr 2] ar by simp
      have slot: "right_of s a = Some n" if "parent_of s n = Some a"
        using is_tree_parent_in [OF r 2] that ar by auto
      have slot2: "parent_of s n = Some a" if "right_of s a = Some n"
        using r that by (auto dest: is_tree_parent)
      have nleft: "left_of s a \<noteq> Some n"
        using l nl by (auto dest: is_tree_root_in)
      have rootB: "x \<in> set_tree r" if "right_of s c = Some x" for x
        using is_tree_child_in [OF r cr] that by simp
      have l': "is_tree s' (Some a) (left_of s a) l"
      proof (rule is_tree_frame [OF l])
        fix x assume x: "x \<in> set_tree l"
        then have "x \<noteq> n" "x \<noteq> c" "right_of s c \<noteq> Some x" using nl cr lr rootB by auto
        moreover have "parent_of s n \<noteq> Some x"
          using is_tree_parent_in [OF r 2] x lr al by auto
        ultimately show "parent_of s' x = parent_of s x \<and> left_of s' x = left_of s x \<and> right_of s' x = right_of s x"
          by (simp add: P L R)
      qed
      have "a \<noteq> c" "right_of s c \<noteq> Some a" using cr ar rootB by auto
      then have "parent_of s' a = par" "left_of s' a = left_of s a"
        "right_of s' a = (if right_of s a = Some n then Some c else right_of s a)"
        using False pa slot slot2 nleft by (auto simp: P L R)
      with IH l' show ?thesis using False pa rot_right_at_notin [OF nl] by simp
    qed
  qed
qed

lemma rot_left_is_tree:
  assumes rel: "rot_left_rel s s' n c"
    and t: "is_tree s par p t" and d: "distinct (inorder t)" and n: "n \<in> set_tree t"
    and c: "right_of s n = Some c" and par: "\<And>g. par = Some g \<Longrightarrow> g \<notin> set_tree t"
  shows "is_tree s' par (if p = Some n then Some c else p) (rot_left_at n t)"
  using t d n par
proof (induction t arbitrary: par p)
  case Leaf
  then show ?case by simp
next
  case (Node l a r)
  from rel have P: "\<And>a. parent_of s' a = (if a = n then Some c else if a = c then parent_of s n
                            else if left_of s c = Some a then Some n else parent_of s a)"
    and L: "\<And>a. left_of s' a = (if a = c then Some n
                          else if parent_of s n = Some a \<and> left_of s a = Some n then Some c
                          else left_of s a)"
    and R: "\<And>a. right_of s' a = (if a = n then left_of s c
                           else if parent_of s n = Some a \<and> left_of s a \<noteq> Some n then Some c
                           else right_of s a)"
    by (simp_all add: rot_left_rel_def)
  from Node.prems have pa: "p = Some a" "parent_of s a = par"
    and l: "is_tree s (Some a) (left_of s a) l" and r: "is_tree s (Some a) (right_of s a) r"
    and dl: "distinct (inorder l)" and dr: "distinct (inorder r)"
    and al: "a \<notin> set_tree l" and ar: "a \<notin> set_tree r"
    and lr: "set_tree l \<inter> set_tree r = {}"
    by auto
  show ?case
  proof (cases "a = n")
    case True
    with c r obtain B C where r_eq: "r = Node B c C" by (auto dest: is_tree_Some)
    with r have pc: "parent_of s c = Some a" and B: "is_tree s (Some c) (left_of s c) B"
      and C: "is_tree s (Some c) (right_of s c) C" by auto
    from r_eq ar dr lr have cn: "c \<noteq> n" and cB: "c \<notin> set_tree B" and cC: "c \<notin> set_tree C"
      and BC: "set_tree B \<inter> set_tree C = {}" and nB: "n \<notin> set_tree B" and nC: "n \<notin> set_tree C"
      and Bl: "set_tree B \<inter> set_tree l = {}" and Cl: "set_tree C \<inter> set_tree l = {}"
      and cl: "c \<notin> set_tree l" and dB: "distinct (inorder B)"
      using True by auto
    have pn: "parent_of s n = par" using pa True by simp
    have par_out: "par \<noteq> Some x" if "x \<in> set_tree (Node l a r)" for x
      using Node.prems(4) that by blast
    have pnc: "parent_of s n \<noteq> Some x" if "x \<in> set_tree (Node l a r)" for x
      using par_out [OF that] pn by simp
    have rootB: "x \<in> set_tree B" if "left_of s c = Some x" for x
      using B that by (auto dest: is_tree_root_in)
    have C': "is_tree s' (Some c) (right_of s c) C"
    proof (rule is_tree_frame [OF C])
      fix x assume x: "x \<in> set_tree C"
      then have "x \<noteq> n" "x \<noteq> c" "left_of s c \<noteq> Some x" "parent_of s n \<noteq> Some x"
        using nC cC BC rootB pnc r_eq by auto
      then show "parent_of s' x = parent_of s x \<and> left_of s' x = left_of s x \<and> right_of s' x = right_of s x"
        by (simp add: P L R)
    qed
    have B': "is_tree s' (Some n) (left_of s c) B"
    proof (rule is_tree_reparent [OF B dB])
      fix x assume x: "x \<in> set_tree B"
      then have "x \<noteq> n" "x \<noteq> c" "parent_of s n \<noteq> Some x"
        using nB cB pnc r_eq by auto
      then show "left_of s' x = left_of s x \<and> right_of s' x = right_of s x \<and>
           parent_of s' x = (if left_of s c = Some x then Some n else parent_of s x)"
        by (simp add: P L R)
    qed
    have l': "is_tree s' (Some n) (left_of s n) l"
    proof (rule is_tree_frame [OF l [unfolded True]])
      fix x assume x: "x \<in> set_tree l"
      then have "x \<noteq> n" "x \<noteq> c" "left_of s c \<noteq> Some x" "parent_of s n \<noteq> Some x"
        using al cl Bl rootB pnc True by auto
      then show "parent_of s' x = parent_of s x \<and> left_of s' x = left_of s x \<and> right_of s' x = right_of s x"
        by (simp add: P L R)
    qed
    have "parent_of s' c = par" "right_of s' c = right_of s c" "left_of s' c = Some n"
      "parent_of s' n = Some c" "right_of s' n = left_of s c" "left_of s' n = left_of s n"
      using cn pn pnc [of c] pnc [of n] r_eq True by (simp_all add: P L R)
    with C' B' l' show ?thesis using True pa r_eq by simp
  next
    case False
    with Node.prems(3) consider "n \<in> set_tree l" | "n \<in> set_tree r" by auto
    then show ?thesis
    proof cases
      case 1
      then have nr: "n \<notin> set_tree r" using lr by auto
      from is_tree_child_in [OF l 1] c have cl: "c \<in> set_tree l" by simp
      have IH: "is_tree s' (Some a) (if left_of s a = Some n then Some c else left_of s a) (rot_left_at n l)"
        using Node.IH(1) [OF l dl 1] al by simp
      have slot: "left_of s a = Some n" if "parent_of s n = Some a"
        using is_tree_parent_in [OF l 1] that al by auto
      have slot2: "parent_of s n = Some a" if "left_of s a = Some n"
        using l that by (auto dest: is_tree_parent)
      have rootB: "x \<in> set_tree l" if "left_of s c = Some x" for x
        using is_tree_child_in [OF l cl] that by simp
      have r': "is_tree s' (Some a) (right_of s a) r"
      proof (rule is_tree_frame [OF r])
        fix x assume x: "x \<in> set_tree r"
        then have "x \<noteq> n" "x \<noteq> c" "left_of s c \<noteq> Some x" using nr cl lr rootB by auto
        moreover have "parent_of s n \<noteq> Some x"
          using is_tree_parent_in [OF l 1] x lr ar by auto
        ultimately show "parent_of s' x = parent_of s x \<and> left_of s' x = left_of s x \<and> right_of s' x = right_of s x"
          by (simp add: P L R)
      qed
      have "a \<noteq> c" "left_of s c \<noteq> Some a" using cl al rootB by auto
      then have "parent_of s' a = par" "right_of s' a = right_of s a"
        "left_of s' a = (if left_of s a = Some n then Some c else left_of s a)"
        using False pa slot slot2 by (auto simp: P L R)
      with IH r' show ?thesis using False pa rot_left_at_notin [OF nr] by simp
    next
      case 2
      then have nl: "n \<notin> set_tree l" using lr by auto
      from is_tree_child_in [OF r 2] c have cr: "c \<in> set_tree r" by simp
      have IH: "is_tree s' (Some a) (if right_of s a = Some n then Some c else right_of s a) (rot_left_at n r)"
        using Node.IH(2) [OF r dr 2] ar by simp
      have slot: "right_of s a = Some n" if "parent_of s n = Some a"
        using is_tree_parent_in [OF r 2] that ar by auto
      have slot2: "parent_of s n = Some a" if "right_of s a = Some n"
        using r that by (auto dest: is_tree_parent)
      have nleft: "left_of s a \<noteq> Some n"
        using l nl by (auto dest: is_tree_root_in)
      have rootB: "x \<in> set_tree r" if "left_of s c = Some x" for x
        using is_tree_child_in [OF r cr] that by simp
      have l': "is_tree s' (Some a) (left_of s a) l"
      proof (rule is_tree_frame [OF l])
        fix x assume x: "x \<in> set_tree l"
        then have "x \<noteq> n" "x \<noteq> c" "left_of s c \<noteq> Some x" using nl cr lr rootB by auto
        moreover have "parent_of s n \<noteq> Some x"
          using is_tree_parent_in [OF r 2] x lr al by auto
        ultimately show "parent_of s' x = parent_of s x \<and> left_of s' x = left_of s x \<and> right_of s' x = right_of s x"
          by (simp add: P L R)
      qed
      have "a \<noteq> c" "left_of s c \<noteq> Some a" using cr ar rootB by auto
      then have "parent_of s' a = par" "left_of s' a = left_of s a"
        "right_of s' a = (if right_of s a = Some n then Some c else right_of s a)"
        using False pa slot slot2 nleft by (auto simp: P L R)
      with IH l' show ?thesis using False pa rot_left_at_notin [OF nl] by simp
    qed
  qed
qed




lemma is_tree_sub:
  assumes "is_tree s par p t" "distinct (inorder t)" "n \<in> set_tree t"
    and "\<And>g. par = Some g \<Longrightarrow> g \<notin> set_tree t"
  shows "\<exists>l r. is_tree s (parent_of s n) (Some n) (Node l n r) \<and> distinct (inorder (Node l n r)) \<and>
           (\<forall>g. parent_of s n = Some g \<longrightarrow> g \<notin> set_tree (Node l n r))"
  using assms
proof (induction t arbitrary: par p)
  case Leaf
  then show ?case by simp
next
  case (Node l a r)
  then have l: "is_tree s (Some a) (left_of s a) l" and r: "is_tree s (Some a) (right_of s a) r"
    and pa: "p = Some a" "parent_of s a = par" by auto
  consider "n = a" | "n \<in> set_tree l" | "n \<in> set_tree r" using Node.prems(3) by auto
  then show ?case
  proof cases
    case 1
    with Node.prems pa show ?thesis by (intro exI [of _ l] exI [of _ r]) auto
  next
    case 2
    with Node.IH(1) [OF l _ 2] Node.prems(2) show ?thesis by auto
  next
    case 3
    with Node.IH(2) [OF r _ 3] Node.prems(2) show ?thesis by auto
  qed
qed

lemma rotate_right_rel:
  assumes t: "is_tree s (parent_of s n) (Some n) (Node l n r)" and d: "distinct (inorder (Node l n r))"
    and g: "\<forall>g. parent_of s n = Some g \<longrightarrow> g \<notin> set_tree (Node l n r)"
    and c: "left_of s n = Some c"
  shows "\<exists>s'. avl_rotate_right (Some n) s = Some s' \<and> rot_right_rel s s' n c"
proof -
  from t c obtain A B where l: "l = Node A c B" by (auto dest: is_tree_Some)
  with t have A: "is_tree s (Some c) (left_of s c) A" and B: "is_tree s (Some c) (right_of s c) B"
    by auto
  have 1: "c \<noteq> n" using d l by auto
  have 2: "left_of s c \<noteq> Some n" "left_of s c \<noteq> Some c"
    using A d l by (auto dest: is_tree_root_in)
  have 3: "right_of s c \<noteq> Some c" "right_of s c \<noteq> Some n"
    using B d l by (auto dest: is_tree_root_in)
  have 4: "parent_of s n \<noteq> Some c" "parent_of s n \<noteq> Some n"
    using g l by auto
  from rotate_right_effect [OF c 1 2(1) 3 4] show ?thesis
    unfolding rot_right_rel_def by blast
qed

lemma rotate_left_rel:
  assumes t: "is_tree s (parent_of s n) (Some n) (Node l n r)" and d: "distinct (inorder (Node l n r))"
    and g: "\<forall>g. parent_of s n = Some g \<longrightarrow> g \<notin> set_tree (Node l n r)"
    and c: "right_of s n = Some c"
  shows "\<exists>s'. avl_rotate_left (Some n) s = Some s' \<and> rot_left_rel s s' n c"
proof -
  from t c obtain B C where r: "r = Node B c C" by (auto dest: is_tree_Some)
  with t have B: "is_tree s (Some c) (left_of s c) B" and C: "is_tree s (Some c) (right_of s c) C"
    by auto
  have 1: "c \<noteq> n" using d r by auto
  have 2: "right_of s c \<noteq> Some n" "right_of s c \<noteq> Some c"
    using C d r by (auto dest: is_tree_root_in)
  have 3: "left_of s c \<noteq> Some c" "left_of s c \<noteq> Some n"
    using B d r by (auto dest: is_tree_root_in)
  have 4: "parent_of s n \<noteq> Some c" "parent_of s n \<noteq> Some n"
    using g r by auto
  from rotate_left_effect [OF c 1 2(1) 3 4] show ?thesis
    unfolding rot_left_rel_def by blast
qed

lemma rot_right_rel_heights:
  assumes "rot_right_rel s s' n c" "c \<noteq> n" "left_of s c \<noteq> Some n" "left_of s c \<noteq> Some c"
    "right_of s c \<noteq> Some c" "right_of s c \<noteq> Some n" "parent_of s n \<noteq> Some c" "parent_of s n \<noteq> Some n"
  shows "heights_recomputed s s' n c"
proof -
  have h: "avl_height_fn s' p = avl_height_fn s p" if "p \<noteq> Some n" "p \<noteq> Some c" for p
    using that assms(1) by (cases p) (auto simp: avl_height_fn_def rot_right_rel_def)
  have "left_of s' n = right_of s c" "right_of s' n = right_of s n" "left_of s' c = left_of s c"
    "right_of s' c = Some n"
    using assms by (simp_all add: rot_right_rel_def)
  moreover have "height_of s' n = rot_hd s (right_of s c) (right_of s n)"
    "height_of s' c = max_int8 (avl_height_fn s (left_of s c)) (height_of s' n) + 1"
    "\<forall>a. a \<noteq> n \<and> a \<noteq> c \<longrightarrow> height_of s' a = height_of s a"
    using assms by (simp_all add: rot_right_rel_def)
  ultimately show ?thesis
    using h [of "left_of s c"] assms by (simp add: heights_recomputed_def rot_hd_def avl_height_fn_def)
qed


lemma rot_left_rel_heights:
  assumes "rot_left_rel s s' n c" "c \<noteq> n" "right_of s c \<noteq> Some n" "right_of s c \<noteq> Some c"
    "left_of s c \<noteq> Some c" "left_of s c \<noteq> Some n" "parent_of s n \<noteq> Some c" "parent_of s n \<noteq> Some n"
  shows "heights_recomputed s s' n c"
proof -
  have h: "avl_height_fn s' p = avl_height_fn s p" if "p \<noteq> Some n" "p \<noteq> Some c" for p
    using that assms(1) by (cases p) (auto simp: avl_height_fn_def rot_left_rel_def)
  have "right_of s' n = left_of s c" "left_of s' n = left_of s n" "right_of s' c = right_of s c"
    "left_of s' c = Some n"
    using assms by (simp_all add: rot_left_rel_def)
  moreover have "height_of s' n = rot_hd s (left_of s n) (left_of s c)"
    "height_of s' c = max_int8 (height_of s' n) (avl_height_fn s (right_of s c)) + 1"
    "\<forall>a. a \<noteq> n \<and> a \<noteq> c \<longrightarrow> height_of s' a = height_of s a"
    using assms by (simp_all add: rot_left_rel_def)
  ultimately show ?thesis
    using h [of "right_of s c"] assms by (simp add: heights_recomputed_def rot_hd_def avl_height_fn_def)
qed

lemma rot_rel_slot:
  assumes "rot_right_rel s s' n c \<or> rot_left_rel s s' n c"
    and "parent_of s n \<noteq> Some c" "parent_of s n \<noteq> Some n"
  shows "slot_rewritten s s' n c"
  using assms by (auto simp: slot_rewritten_def rot_right_rel_def rot_left_rel_def split: option.splits)

lemma wf_tree_root_iff:
  assumes "wf_tree s t" "n \<in> set_tree t"
  shows "root_node s = Some n \<longleftrightarrow> parent_of s n = None"
proof
  assume "root_node s = Some n"
  with assms(1) show "parent_of s n = None"
    by (auto simp: wf_tree_def dest: is_tree_parent)
next
  assume "parent_of s n = None"
  with is_tree_parent_in [of s None "root_node s" t n] assms show "root_node s = Some n"
    by (auto simp: wf_tree_def)
qed

text \<open>
  Claim C4. In a well-formed tree, for every node \<open>n\<close> with a left child \<open>c\<close>,
  \<open>avl_rotate_right\<close> at \<open>n\<close> returns; the result is a well-formed tree of the rotated
  shape, with the same in-order sequence of nodes; the stored heights of \<open>n\<close> and \<open>c\<close>
  are recomputed, first that of the demoted node \<open>n\<close>, then that of the promoted node
  \<open>c\<close>, and no other height changes; the parent's slot that pointed to \<open>n\<close>, or the
  root pointer when \<open>n\<close> was the root, now points to \<open>c\<close>. The same holds for
  \<open>avl_rotate_left\<close> at a node with a right child.
\<close>

theorem rotation_spec:
  assumes "wf_tree s t" "n \<in> set_tree t"
  shows "(\<forall>c. left_of s n = Some c \<longrightarrow>
            (\<exists>s'. avl_rotate_right (Some n) s = Some s' \<and> wf_tree s' (rot_right_at n t) \<and>
                  inorder (rot_right_at n t) = inorder t \<and>
                  heights_recomputed s s' n c \<and> slot_rewritten s s' n c)) \<and>
         (\<forall>c. right_of s n = Some c \<longrightarrow>
            (\<exists>s'. avl_rotate_left (Some n) s = Some s' \<and> wf_tree s' (rot_left_at n t) \<and>
                  inorder (rot_left_at n t) = inorder t \<and>
                  heights_recomputed s s' n c \<and> slot_rewritten s s' n c))"
proof -
  from assms have t: "is_tree s None (root_node s) t" and d: "distinct (inorder t)"
    by (auto simp: wf_tree_def)
  from is_tree_sub [OF t d assms(2)] obtain l r
    where sub: "is_tree s (parent_of s n) (Some n) (Node l n r)" "distinct (inorder (Node l n r))"
      "\<forall>g. parent_of s n = Some g \<longrightarrow> g \<notin> set_tree (Node l n r)"
    by auto
  have right: "\<exists>s'. avl_rotate_right (Some n) s = Some s' \<and> wf_tree s' (rot_right_at n t) \<and>
        inorder (rot_right_at n t) = inorder t \<and> heights_recomputed s s' n c \<and> slot_rewritten s s' n c"
    if c: "left_of s n = Some c" for c
  proof -
    from rotate_right_rel [OF sub c] obtain s'
      where run: "avl_rotate_right (Some n) s = Some s'" and rel: "rot_right_rel s s' n c" by auto
    from sub(1) c obtain A B where l: "l = Node A c B" by (auto dest: is_tree_Some)
    with sub(1) have A: "is_tree s (Some c) (left_of s c) A" and B: "is_tree s (Some c) (right_of s c) B"
      by auto
    have f: "c \<noteq> n" "left_of s c \<noteq> Some n" "left_of s c \<noteq> Some c"
      "right_of s c \<noteq> Some c" "right_of s c \<noteq> Some n" "parent_of s n \<noteq> Some c" "parent_of s n \<noteq> Some n"
      using A B sub(2,3) l by (auto dest: is_tree_root_in)
    have "is_tree s' None (if root_node s = Some n then Some c else root_node s) (rot_right_at n t)"
      using rot_right_is_tree [OF rel t d assms(2) c] by simp
    moreover have "root_node s' = (if root_node s = Some n then Some c else root_node s)"
      using rel wf_tree_root_iff [OF assms] by (simp add: rot_right_rel_def)
    ultimately have "wf_tree s' (rot_right_at n t)"
      using d by (simp add: wf_tree_def inorder_rot_right_at)
    with run rot_right_rel_heights [OF rel f] rot_rel_slot [OF disjI1 [OF rel] f(6,7)]
    show ?thesis by (auto simp: inorder_rot_right_at)
  qed
  have left: "\<exists>s'. avl_rotate_left (Some n) s = Some s' \<and> wf_tree s' (rot_left_at n t) \<and>
        inorder (rot_left_at n t) = inorder t \<and> heights_recomputed s s' n c \<and> slot_rewritten s s' n c"
    if c: "right_of s n = Some c" for c
  proof -
    from rotate_left_rel [OF sub c] obtain s'
      where run: "avl_rotate_left (Some n) s = Some s'" and rel: "rot_left_rel s s' n c" by auto
    from sub(1) c obtain B C where r: "r = Node B c C" by (auto dest: is_tree_Some)
    with sub(1) have B: "is_tree s (Some c) (left_of s c) B" and C: "is_tree s (Some c) (right_of s c) C"
      by auto
    have f: "c \<noteq> n" "right_of s c \<noteq> Some n" "right_of s c \<noteq> Some c"
      "left_of s c \<noteq> Some c" "left_of s c \<noteq> Some n" "parent_of s n \<noteq> Some c" "parent_of s n \<noteq> Some n"
      using B C sub(2,3) r by (auto dest: is_tree_root_in)
    have "is_tree s' None (if root_node s = Some n then Some c else root_node s) (rot_left_at n t)"
      using rot_left_is_tree [OF rel t d assms(2) c] by simp
    moreover have "root_node s' = (if root_node s = Some n then Some c else root_node s)"
      using rel wf_tree_root_iff [OF assms] by (simp add: rot_left_rel_def)
    ultimately have "wf_tree s' (rot_left_at n t)"
      using d by (simp add: wf_tree_def inorder_rot_left_at)
    with run rot_left_rel_heights [OF rel f] rot_rel_slot [OF disjI2 [OF rel] f(6,7)]
    show ?thesis by (auto simp: inorder_rot_left_at)
  qed
  from right left show ?thesis by blast
qed

theorem rotation_spec_witness:
  "wf_tree two_nodes (Node (single 1) 2 Leaf) \<and> left_of two_nodes 2 = Some 1 \<and>
   (\<exists>s'. avl_rotate_right (Some 2) two_nodes = Some s' \<and> wf_tree s' (Node Leaf 1 (single 2)) \<and>
         inorder (Node Leaf 1 (single 2)) = inorder (Node (single 1) 2 Leaf) \<and>
         heights_recomputed two_nodes s' 2 1 \<and> slot_rewritten two_nodes s' 2 1) \<and>
   wf_tree two_nodes_r (Node Leaf 1 (single 2)) \<and> right_of two_nodes_r 1 = Some 2 \<and>
   (\<exists>s'. avl_rotate_left (Some 1) two_nodes_r = Some s' \<and> wf_tree s' (Node (single 1) 2 Leaf) \<and>
         inorder (Node (single 1) 2 Leaf) = inorder (Node Leaf 1 (single 2)) \<and>
         heights_recomputed two_nodes_r s' 1 2 \<and> slot_rewritten two_nodes_r s' 1 2)"
proof -
  have wf: "wf_tree two_nodes (Node (single 1) 2 Leaf)"
    by (simp add: wf_tree_def single_def two_nodes_def left_of_def right_of_def parent_of_def)
  have wfr: "wf_tree two_nodes_r (Node Leaf 1 (single 2))"
    by (simp add: wf_tree_def single_def two_nodes_r_def left_of_def right_of_def parent_of_def)
  have l: "left_of two_nodes 2 = Some 1" by (simp add: two_nodes_def left_of_def)
  have r: "right_of two_nodes_r 1 = Some 2" by (simp add: two_nodes_r_def right_of_def)
  from rotation_spec [OF wf, of 2] rotation_spec [OF wfr, of 1] wf wfr l r
  show ?thesis by (simp add: single_def)
qed


section \<open>Signed 8-bit arithmetic\<close>

lemma sint8_range: "- 128 \<le> sint (a :: 8 word) \<and> sint a \<le> 127"
  using sint_ge [of a] sint_lt [of a] by simp

lemma sint8_sub:
  fixes a b :: "8 word"
  assumes "0 \<le> sint a" "0 \<le> sint b"
  shows "sint (a - b) = sint a - sint b"
proof -
  have "- 128 \<le> sint a - sint b" "sint a - sint b < 128"
    using assms sint8_range [of a] sint8_range [of b] by auto
  then show ?thesis
    by (simp add: sint_word_ariths signed_take_bit_int_eq_self)
qed

lemma sint8_succ:
  fixes a :: "8 word"
  assumes "sint a < 127"
  shows "sint (a + 1) = sint a + 1"
proof -
  have "- 128 \<le> sint a + 1" "sint a + 1 < 128"
    using assms sint8_range [of a] by auto
  then show ?thesis
    by (simp add: sint_word_ariths signed_take_bit_int_eq_self)
qed

lemma sint_max_int8: "sint (max_int8 a b) = max (sint a) (sint b)"
  by (auto simp: max_int8_def word_sless_alt)

lemma sint8_consts: "sint (0 :: 8 word) = 0" "sint (1 :: 8 word) = 1" "sint (- 1 :: 8 word) = - 1"
  by simp_all


section \<open>One step of the rebalance walk is safe\<close>

lemma avl_inv_iff: "avl_inv s t = (heights_ok s t \<and> balanced t)"
  by (induction t) auto

lemma heights_ok_frame:
  "(\<And>a. a \<in> set_tree t \<Longrightarrow> height_of s' a = height_of s a) \<Longrightarrow> heights_ok s' t = heights_ok s t"
  by (induction t) auto

lemma stored_height:
  "is_tree s par p t \<Longrightarrow> heights_ok s t \<Longrightarrow> sint (avl_height_fn s p) = int (height t)"
  by (cases t) (auto simp: avl_height_fn_def)

lemma update_height_Some:
  "avl_update_height (Some a) s = Some (set_height a (rot_hd s (left_of s a) (right_of s a)) s)"
  by (simp add: avl_update_height_def rot_hd_def)

lemma rotate_right_returns:
  assumes "left_of s n = Some c"
  shows "\<exists>s'. avl_rotate_right (Some n) s = Some s'"
  unfolding avl_rotate_right_def avl_update_height_def Let_def
  by (simp only: assms Option.bind.simps) (rule exI, rule refl)

lemma rotate_left_returns:
  assumes "right_of s n = Some c"
  shows "\<exists>s'. avl_rotate_left (Some n) s = Some s'"
  unfolding avl_rotate_left_def avl_update_height_def Let_def
  by (simp only: assms Option.bind.simps) (rule exI, rule refl)

lemma rebalance_body_unfold:
  "avl_rebalance_body n s =
    (let s1 = set_height n (rot_hd s (left_of s n) (right_of s n)) s;
         balance = avl_height_fn s1 (left_of s n) - avl_height_fn s1 (right_of s n)
     in if 1 <s balance then
          (case left_of s n of None \<Rightarrow> None
           | Some x \<Rightarrow>
               (if avl_height_fn s1 (left_of s x) <s avl_height_fn s1 (right_of s x)
                then avl_rotate_left (Some x) s1 else Some s1) \<bind> avl_rotate_right (Some n))
        else if balance <s - 1 then
          (case right_of s n of None \<Rightarrow> None
           | Some x \<Rightarrow>
               (if avl_height_fn s1 (right_of s x) <s avl_height_fn s1 (left_of s x)
                then avl_rotate_right (Some x) s1 else Some s1) \<bind> avl_rotate_left (Some n))
        else Some s1)"
  by (auto simp: avl_rebalance_body_def update_height_Some Let_def split: option.splits)


lemma avl_height_fn_set_height:
  "p \<noteq> Some n \<Longrightarrow> avl_height_fn (set_height n v s) p = avl_height_fn s p"
  by (cases p) (auto simp: avl_height_fn_def)

lemma is_tree_set_height [simp]: "is_tree (set_height n v s) par p t = is_tree s par p t"
  by (induction t arbitrary: par p) auto

text \<open>
  Claim C9. Let \<open>n\<close> be the root of a subtree in memory whose nodes are all different,
  with the parent of \<open>n\<close> outside it, and let the stored heights be correct in the two
  subtrees below \<open>n\<close>. Then the loop body of \<open>avl_rebalance\<close> at \<open>n\<close> returns: neither
  the body nor a rotation it calls dereferences a null pointer. Whenever the balance it
  computes is above 1, the left child of \<open>n\<close> is present with a stored height of at
  least 2, and its right child is present whenever the left rotation is chosen;
  symmetrically for a balance below -1.
\<close>

theorem rebalance_step_safe:
  assumes t: "is_tree s par (Some n) (Node l n r)" and d: "distinct (inorder (Node l n r))"
    and g: "\<forall>g. par = Some g \<longrightarrow> g \<notin> set_tree (Node l n r)"
    and hl: "heights_ok s l" and hr: "heights_ok s r"
  shows "(\<exists>s'. avl_rebalance_body n s = Some s') \<and>
         (1 <s avl_height_fn s (left_of s n) - avl_height_fn s (right_of s n) \<longrightarrow>
            (\<exists>x. left_of s n = Some x \<and> 2 \<le> sint (height_of s x) \<and>
                 (avl_height_fn s (left_of s x) <s avl_height_fn s (right_of s x) \<longrightarrow>
                    right_of s x \<noteq> None))) \<and>
         (avl_height_fn s (left_of s n) - avl_height_fn s (right_of s n) <s - 1 \<longrightarrow>
            (\<exists>x. right_of s n = Some x \<and> 2 \<le> sint (height_of s x) \<and>
                 (avl_height_fn s (right_of s x) <s avl_height_fn s (left_of s x) \<longrightarrow>
                    left_of s x \<noteq> None)))"
proof -
  from t have pn: "parent_of s n = par" and tl: "is_tree s (Some n) (left_of s n) l"
    and tr: "is_tree s (Some n) (right_of s n) r" by auto
  define s1 where "s1 = set_height n (rot_hd s (left_of s n) (right_of s n)) s"
  have nl: "left_of s n \<noteq> Some n" using tl d by (auto dest: is_tree_root_in)
  have nr: "right_of s n \<noteq> Some n" using tr d by (auto dest: is_tree_root_in)
  have h1: "avl_height_fn s1 (left_of s n) = avl_height_fn s (left_of s n)"
    "avl_height_fn s1 (right_of s n) = avl_height_fn s (right_of s n)"
    using nl nr by (simp_all add: s1_def avl_height_fn_set_height)
  have sl: "sint (avl_height_fn s (left_of s n)) = int (height l)"
    and sr: "sint (avl_height_fn s (right_of s n)) = int (height r)"
    using stored_height [OF tl hl] stored_height [OF tr hr] by auto
  have bal: "sint (avl_height_fn s (left_of s n) - avl_height_fn s (right_of s n))
      = int (height l) - int (height r)"
    using sl sr by (simp add: sint8_sub)
  have left: "\<exists>x. left_of s n = Some x \<and> 2 \<le> sint (height_of s x) \<and>
      (avl_height_fn s (left_of s x) <s avl_height_fn s (right_of s x) \<longrightarrow> right_of s x \<noteq> None) \<and>
      (\<exists>s'. ((if avl_height_fn s1 (left_of s x) <s avl_height_fn s1 (right_of s x)
                then avl_rotate_left (Some x) s1 else Some s1) \<bind> avl_rotate_right (Some n)) = Some s')"
    if b: "1 < int (height l) - int (height r)"
  proof -
    from b obtain ll x lr where l: "l = Node ll x lr" by (cases l) auto
    with tl have lx: "left_of s n = Some x" and px: "parent_of s x = Some n"
      and tll: "is_tree s (Some x) (left_of s x) ll" and tlr: "is_tree s (Some x) (right_of s x) lr"
      by auto
    from hl l have hx: "sint (height_of s x) = int (height l)" and hll: "heights_ok s ll"
      and hlr: "heights_ok s lr" by auto
    have xn: "x \<noteq> n" "left_of s x \<noteq> Some n" "right_of s x \<noteq> Some n"
      using d l tll tlr by (auto dest: is_tree_root_in)
    have h1x: "avl_height_fn s1 (left_of s x) = avl_height_fn s (left_of s x)"
      "avl_height_fn s1 (right_of s x) = avl_height_fn s (right_of s x)"
      using xn by (simp_all add: s1_def avl_height_fn_set_height)
    have cmp: "avl_height_fn s (left_of s x) <s avl_height_fn s (right_of s x) \<longleftrightarrow> height ll < height lr"
      using stored_height [OF tll hll] stored_height [OF tlr hlr] by (simp add: word_sless_alt)
    have run: "\<exists>s'. ((if avl_height_fn s1 (left_of s x) <s avl_height_fn s1 (right_of s x)
                then avl_rotate_left (Some x) s1 else Some s1) \<bind> avl_rotate_right (Some n)) = Some s'"
    proof (cases "height ll < height lr")
      case True
      then obtain B y C where lr: "lr = Node B y C" by (cases lr) auto
      with tlr have rx: "right_of s x = Some y" by simp
      have "is_tree s1 (parent_of s1 x) (Some x) (Node ll x lr)"
        using tl l lx px by (simp add: s1_def)
      moreover have "distinct (inorder (Node ll x lr))" using d l by auto
      moreover have "\<forall>g. parent_of s1 x = Some g \<longrightarrow> g \<notin> set_tree (Node ll x lr)"
        using px d l by (simp add: s1_def)
      moreover have "right_of s1 x = Some y" using rx by (simp add: s1_def)
      ultimately obtain s2 where s2: "avl_rotate_left (Some x) s1 = Some s2" "rot_left_rel s1 s2 x y"
        using rotate_left_rel by blast
      have "y \<noteq> n" using d l lr by auto
      then have "left_of s2 n = Some y"
        using s2(2) px lx by (simp add: rot_left_rel_def s1_def)
      from rotate_right_returns [OF this] s2(1) True cmp h1x show ?thesis by simp
    next
      case False
      have "left_of s1 n = Some x" using lx by (simp add: s1_def)
      from rotate_right_returns [OF this] False cmp h1x show ?thesis by simp
    qed
    have "right_of s x \<noteq> None" if "height ll < height lr"
      using that tlr by (cases lr) auto
    with lx hx b cmp run show ?thesis by auto
  qed
  have right: "\<exists>x. right_of s n = Some x \<and> 2 \<le> sint (height_of s x) \<and>
      (avl_height_fn s (right_of s x) <s avl_height_fn s (left_of s x) \<longrightarrow> left_of s x \<noteq> None) \<and>
      (\<exists>s'. ((if avl_height_fn s1 (right_of s x) <s avl_height_fn s1 (left_of s x)
                then avl_rotate_right (Some x) s1 else Some s1) \<bind> avl_rotate_left (Some n)) = Some s')"
    if b: "int (height l) - int (height r) < - 1"
  proof -
    from b obtain rl x rr where r: "r = Node rl x rr" by (cases r) auto
    with tr have rx: "right_of s n = Some x" and px: "parent_of s x = Some n"
      and trl: "is_tree s (Some x) (left_of s x) rl" and trr: "is_tree s (Some x) (right_of s x) rr"
      by auto
    from hr r have hx: "sint (height_of s x) = int (height r)" and hrl: "heights_ok s rl"
      and hrr: "heights_ok s rr" by auto
    have xn: "x \<noteq> n" "left_of s x \<noteq> Some n" "right_of s x \<noteq> Some n"
      using d r trl trr by (auto dest: is_tree_root_in)
    have xl: "left_of s n \<noteq> Some x"
      using tl d r by (auto dest: is_tree_root_in)
    have h1x: "avl_height_fn s1 (left_of s x) = avl_height_fn s (left_of s x)"
      "avl_height_fn s1 (right_of s x) = avl_height_fn s (right_of s x)"
      using xn by (simp_all add: s1_def avl_height_fn_set_height)
    have cmp: "avl_height_fn s (right_of s x) <s avl_height_fn s (left_of s x) \<longleftrightarrow> height rr < height rl"
      using stored_height [OF trl hrl] stored_height [OF trr hrr] by (simp add: word_sless_alt)
    have run: "\<exists>s'. ((if avl_height_fn s1 (right_of s x) <s avl_height_fn s1 (left_of s x)
                then avl_rotate_right (Some x) s1 else Some s1) \<bind> avl_rotate_left (Some n)) = Some s'"
    proof (cases "height rr < height rl")
      case True
      then obtain B y C where rl: "rl = Node B y C" by (cases rl) auto
      with trl have lx: "left_of s x = Some y" by simp
      have "is_tree s1 (parent_of s1 x) (Some x) (Node rl x rr)"
        using tr r rx px by (simp add: s1_def)
      moreover have "distinct (inorder (Node rl x rr))" using d r by auto
      moreover have "\<forall>g. parent_of s1 x = Some g \<longrightarrow> g \<notin> set_tree (Node rl x rr)"
        using px d r by (simp add: s1_def)
      moreover have "left_of s1 x = Some y" using lx by (simp add: s1_def)
      ultimately obtain s2 where s2: "avl_rotate_right (Some x) s1 = Some s2" "rot_right_rel s1 s2 x y"
        using rotate_right_rel by blast
      have "y \<noteq> n" using d r rl by auto
      then have "right_of s2 n = Some y"
        using s2(2) px rx xl xn by (simp add: rot_right_rel_def s1_def)
      from rotate_left_returns [OF this] s2(1) True cmp h1x show ?thesis by simp
    next
      case False
      have "right_of s1 n = Some x" using rx by (simp add: s1_def)
      from rotate_left_returns [OF this] False cmp h1x show ?thesis by simp
    qed
    have "left_of s x \<noteq> None" if "height rr < height rl"
      using that trl by (cases rl) auto
    with rx hx b cmp run show ?thesis by auto
  qed
  have body: "\<exists>s'. avl_rebalance_body n s = Some s'"
  proof -
    consider "1 < int (height l) - int (height r)" | "int (height l) - int (height r) < - 1"
      | "\<not> 1 < int (height l) - int (height r)" "\<not> int (height l) - int (height r) < - 1"
      by linarith
    then show ?thesis
    proof cases
      case 1
      from left [OF 1] 1 show ?thesis
        by (auto simp: rebalance_body_unfold Let_def s1_def [symmetric] h1 word_sless_alt bal)
    next
      case 2
      from right [OF 2] 2 show ?thesis
        by (auto simp: rebalance_body_unfold Let_def s1_def [symmetric] h1 word_sless_alt bal)
    next
      case 3
      then show ?thesis
        by (auto simp: rebalance_body_unfold Let_def s1_def [symmetric] h1 word_sless_alt bal)
    qed
  qed
  from body left right show ?thesis
    by (auto simp: word_sless_alt bal)
qed


lemmas chain3_simps = chain3_def chain3_r_def left_of_def right_of_def parent_of_def height_of_def
  avl_height_fn_def single_def word_sless_alt

theorem rebalance_step_safe_witness:
  "is_tree chain3 None (Some 3) (Node (Node (single 1) 2 Leaf) 3 Leaf) \<and>
   heights_ok chain3 (Node (single 1) 2 Leaf) \<and>
   1 <s avl_height_fn chain3 (left_of chain3 3) - avl_height_fn chain3 (right_of chain3 3) \<and>
   (\<exists>s'. avl_rebalance_body 3 chain3 = Some s') \<and>
   left_of chain3 3 = Some 2 \<and> 2 \<le> sint (height_of chain3 2) \<and>
   is_tree chain3_r None (Some 1) (Node Leaf 1 (Node Leaf 2 (single 3))) \<and>
   heights_ok chain3_r (Node Leaf 2 (single 3)) \<and>
   avl_height_fn chain3_r (left_of chain3_r 1) - avl_height_fn chain3_r (right_of chain3_r 1) <s - 1 \<and>
   (\<exists>s'. avl_rebalance_body 1 chain3_r = Some s') \<and>
   right_of chain3_r 1 = Some 2 \<and> 2 \<le> sint (height_of chain3_r 2)"
proof -
  have a: "is_tree chain3 None (Some 3) (Node (Node (single 1) 2 Leaf) 3 Leaf)"
    "distinct (inorder (Node (Node (single 1) 2 Leaf) 3 Leaf))"
    "\<forall>g. None = Some g \<longrightarrow> g \<notin> set_tree (Node (Node (single 1) 2 Leaf) 3 Leaf)"
    "heights_ok chain3 (Node (single 1) 2 Leaf)" "heights_ok chain3 Leaf"
    by (simp_all add: chain3_simps)
  have b: "is_tree chain3_r None (Some 1) (Node Leaf 1 (Node Leaf 2 (single 3)))"
    "distinct (inorder (Node Leaf 1 (Node Leaf 2 (single 3))))"
    "\<forall>g. None = Some g \<longrightarrow> g \<notin> set_tree (Node Leaf 1 (Node Leaf 2 (single 3)))"
    "heights_ok chain3_r Leaf" "heights_ok chain3_r (Node Leaf 2 (single 3))"
    by (simp_all add: chain3_simps)
  from rebalance_step_safe [OF a] rebalance_step_safe [OF b] a b show ?thesis
    by (simp add: chain3_simps)
qed


section \<open>Rotations within a subtree\<close>

lemma height_node_int: "int (height (Node l a r)) = 1 + max (int (height l)) (int (height r))"
  by simp

lemma stored_rot_hd:
  assumes "is_tree s par1 p t1" "heights_ok s t1" "is_tree s par2 q t2" "heights_ok s t2"
    and "height (Node t1 a t2) \<le> 127"
  shows "sint (rot_hd s p q) = int (height (Node t1 a t2))"
proof -
  have "sint (avl_height_fn s p) = int (height t1)" "sint (avl_height_fn s q) = int (height t2)"
    using assms stored_height by auto
  moreover from this have "sint (max_int8 (avl_height_fn s p) (avl_height_fn s q)) < 127"
    using assms(5) by (simp add: sint_max_int8)
  ultimately show ?thesis
    by (simp add: rot_hd_def sint8_succ sint_max_int8)
qed

lemma rot_right_shape:
  assumes t: "is_tree s par (Some n) (Node (Node A c B) n C)"
    and d: "distinct (inorder (Node (Node A c B) n C))"
    and g: "\<forall>g. par = Some g \<longrightarrow> g \<notin> set_tree (Node (Node A c B) n C)"
  shows "\<exists>s'. avl_rotate_right (Some n) s = Some s' \<and> rot_right_rel s s' n c \<and>
           is_tree s' par (Some c) (Node A c (Node B n C)) \<and>
           frame s s' (set_tree (Node (Node A c B) n C)) par (Some n) (Some c) \<and>
           parent_of s' n = Some c"
proof -
  let ?T = "Node (Node A c B) n C"
  from t have pn: "parent_of s n = par" and lc: "left_of s n = Some c"
    and tB: "is_tree s (Some c) (right_of s c) B" by auto
  from pn t g have t': "is_tree s (parent_of s n) (Some n) ?T"
    and g': "\<forall>g. parent_of s n = Some g \<longrightarrow> g \<notin> set_tree ?T" by auto
  from rotate_right_rel [OF t' d g' lc] obtain s'
    where run: "avl_rotate_right (Some n) s = Some s'" and rel: "rot_right_rel s s' n c" by auto
  have g2: "\<And>g. par = Some g \<Longrightarrow> g \<notin> set_tree ?T" using g by simp
  have "n \<in> set_tree ?T" by simp
  from rot_right_is_tree [OF rel t d this lc g2]
  have t1: "is_tree s' par (Some c) (Node A c (Node B n C))" by simp
  have fr: "frame s s' (set_tree ?T) par (Some n) (Some c)"
  proof -
    have rootB: "x \<in> set_tree B" if "right_of s c = Some x" for x
      using tB that by (auto dest: is_tree_root_in)
    have out: "a \<noteq> n \<and> a \<noteq> c \<and> right_of s c \<noteq> Some a" if "a \<notin> set_tree ?T" for a
      using that rootB by auto
    have "parent_of s' a = parent_of s a \<and> height_of s' a = height_of s a \<and>
         (par \<noteq> Some a \<longrightarrow> left_of s' a = left_of s a \<and> right_of s' a = right_of s a)"
      if "a \<notin> set_tree ?T" for a
      using out [OF that] rel pn by (simp add: rot_right_rel_def)
    moreover have "case par of
         None \<Rightarrow> root_node s = Some n \<longrightarrow> root_node s' = Some c
       | Some g \<Rightarrow> root_node s' = root_node s \<and>
           (if left_of s g = Some n then left_of s' g = Some c \<and> right_of s' g = right_of s g
            else left_of s' g = left_of s g \<and> (right_of s g = Some n \<longrightarrow> right_of s' g = Some c))"
    proof (cases par)
      case None
      with rel pn show ?thesis by (simp add: rot_right_rel_def)
    next
      case (Some g)
      with g have "g \<notin> set_tree ?T" by simp
      from out [OF this] rel pn Some show ?thesis by (simp add: rot_right_rel_def)
    qed
    ultimately show ?thesis by (simp add: frame_def)
  qed
  have "parent_of s' n = Some c" using rel by (simp add: rot_right_rel_def)
  with run rel t1 fr show ?thesis by simp
qed

lemma rot_right_local:
  assumes t: "is_tree s par (Some n) (Node (Node A c B) n C)"
    and d: "distinct (inorder (Node (Node A c B) n C))"
    and g: "\<forall>g. par = Some g \<longrightarrow> g \<notin> set_tree (Node (Node A c B) n C)"
    and h: "heights_ok s A" "heights_ok s B" "heights_ok s C"
    and bound: "height (Node A c (Node B n C)) \<le> 127"
  shows "\<exists>s'. avl_rotate_right (Some n) s = Some s' \<and>
           is_tree s' par (Some c) (Node A c (Node B n C)) \<and>
           heights_ok s' (Node A c (Node B n C)) \<and>
           frame s s' (set_tree (Node (Node A c B) n C)) par (Some n) (Some c) \<and>
           parent_of s' n = Some c"
proof -
  from t have True and tA: "is_tree s (Some c) (left_of s c) A" and tB: "is_tree s (Some c) (right_of s c) B"
    and tC: "is_tree s (Some n) (right_of s n) C" by auto
  from rot_right_shape [OF t d g] obtain s'
    where run: "avl_rotate_right (Some n) s = Some s'" and rel: "rot_right_rel s s' n c"
      and t1: "is_tree s' par (Some c) (Node A c (Node B n C))"
      and fr: "frame s s' (set_tree (Node (Node A c B) n C)) par (Some n) (Some c)"
      and pn: "parent_of s' n = Some c" by auto
  have H: "\<And>a. height_of s' a =
        (if a = n then rot_hd s (right_of s c) (right_of s n)
         else if a = c then max_int8 (avl_height_fn s (left_of s c)) (rot_hd s (right_of s c) (right_of s n)) + 1
         else height_of s a)"
    using rel by (simp add: rot_right_rel_def)
  have cn: "c \<noteq> n" using d by auto
  have hA: "heights_ok s' A" using h(1) d by (subst heights_ok_frame [of A s' s]) (auto simp: H)
  have hB: "heights_ok s' B" using h(2) d by (subst heights_ok_frame [of B s' s]) (auto simp: H)
  have hC: "heights_ok s' C" using h(3) d by (subst heights_ok_frame [of C s' s]) (auto simp: H)
  have bn: "height (Node B n C) \<le> 127" using bound by simp
  have hn: "sint (height_of s' n) = int (height (Node B n C))"
    using stored_rot_hd [OF tB h(2) tC h(3) bn] by (simp add: H)
  have "sint (avl_height_fn s (left_of s c)) = int (height A)"
    using stored_height [OF tA h(1)] .
  moreover have "sint (rot_hd s (right_of s c) (right_of s n)) = int (height (Node B n C))"
    using hn by (simp add: H)
  ultimately have hc: "sint (height_of s' c) = int (height (Node A c (Node B n C)))"
    using bound cn by (simp add: H sint8_succ sint_max_int8)
  from run t1 hA hB hC hn hc fr pn show ?thesis by simp
qed

lemma rot_left_shape:
  assumes t: "is_tree s par (Some n) (Node A n (Node B c C))"
    and d: "distinct (inorder (Node A n (Node B c C)))"
    and g: "\<forall>g. par = Some g \<longrightarrow> g \<notin> set_tree (Node A n (Node B c C))"
  shows "\<exists>s'. avl_rotate_left (Some n) s = Some s' \<and> rot_left_rel s s' n c \<and>
           is_tree s' par (Some c) (Node (Node A n B) c C) \<and>
           frame s s' (set_tree (Node A n (Node B c C))) par (Some n) (Some c) \<and>
           parent_of s' n = Some c"
proof -
  let ?T = "Node A n (Node B c C)"
  from t have pn: "parent_of s n = par" and lc: "right_of s n = Some c"
    and tB: "is_tree s (Some c) (left_of s c) B" by auto
  from pn t g have t': "is_tree s (parent_of s n) (Some n) ?T"
    and g': "\<forall>g. parent_of s n = Some g \<longrightarrow> g \<notin> set_tree ?T" by auto
  from rotate_left_rel [OF t' d g' lc] obtain s'
    where run: "avl_rotate_left (Some n) s = Some s'" and rel: "rot_left_rel s s' n c" by auto
  have g2: "\<And>g. par = Some g \<Longrightarrow> g \<notin> set_tree ?T" using g by simp
  have "n \<in> set_tree ?T" by simp
  from rot_left_is_tree [OF rel t d this lc g2]
  have t1: "is_tree s' par (Some c) (Node (Node A n B) c C)" by simp
  have fr: "frame s s' (set_tree ?T) par (Some n) (Some c)"
  proof -
    have rootB: "x \<in> set_tree B" if "left_of s c = Some x" for x
      using tB that by (auto dest: is_tree_root_in)
    have out: "a \<noteq> n \<and> a \<noteq> c \<and> left_of s c \<noteq> Some a" if "a \<notin> set_tree ?T" for a
      using that rootB by auto
    have "parent_of s' a = parent_of s a \<and> height_of s' a = height_of s a \<and>
         (par \<noteq> Some a \<longrightarrow> left_of s' a = left_of s a \<and> right_of s' a = right_of s a)"
      if "a \<notin> set_tree ?T" for a
      using out [OF that] rel pn by (simp add: rot_left_rel_def)
    moreover have "case par of
         None \<Rightarrow> root_node s = Some n \<longrightarrow> root_node s' = Some c
       | Some g \<Rightarrow> root_node s' = root_node s \<and>
           (if left_of s g = Some n then left_of s' g = Some c \<and> right_of s' g = right_of s g
            else left_of s' g = left_of s g \<and> (right_of s g = Some n \<longrightarrow> right_of s' g = Some c))"
    proof (cases par)
      case None
      with rel pn show ?thesis by (simp add: rot_left_rel_def)
    next
      case (Some g)
      with g have "g \<notin> set_tree ?T" by simp
      from out [OF this] rel pn Some show ?thesis by (simp add: rot_left_rel_def)
    qed
    ultimately show ?thesis by (simp add: frame_def)
  qed
  have "parent_of s' n = Some c" using rel by (simp add: rot_left_rel_def)
  with run rel t1 fr show ?thesis by simp
qed

lemma rot_left_local:
  assumes t: "is_tree s par (Some n) (Node A n (Node B c C))"
    and d: "distinct (inorder (Node A n (Node B c C)))"
    and g: "\<forall>g. par = Some g \<longrightarrow> g \<notin> set_tree (Node A n (Node B c C))"
    and h: "heights_ok s A" "heights_ok s B" "heights_ok s C"
    and bound: "height (Node (Node A n B) c C) \<le> 127"
  shows "\<exists>s'. avl_rotate_left (Some n) s = Some s' \<and>
           is_tree s' par (Some c) (Node (Node A n B) c C) \<and>
           heights_ok s' (Node (Node A n B) c C) \<and>
           frame s s' (set_tree (Node A n (Node B c C))) par (Some n) (Some c) \<and>
           parent_of s' n = Some c"
proof -
  from t have True and tA: "is_tree s (Some n) (left_of s n) A" and tB: "is_tree s (Some c) (left_of s c) B"
    and tC: "is_tree s (Some c) (right_of s c) C" by auto
  from rot_left_shape [OF t d g] obtain s'
    where run: "avl_rotate_left (Some n) s = Some s'" and rel: "rot_left_rel s s' n c"
      and t1: "is_tree s' par (Some c) (Node (Node A n B) c C)"
      and fr: "frame s s' (set_tree (Node A n (Node B c C))) par (Some n) (Some c)"
      and pn: "parent_of s' n = Some c" by auto
  have H: "\<And>a. height_of s' a =
        (if a = n then rot_hd s (left_of s n) (left_of s c)
         else if a = c then max_int8 (rot_hd s (left_of s n) (left_of s c)) (avl_height_fn s (right_of s c)) + 1
         else height_of s a)"
    using rel by (simp add: rot_left_rel_def)
  have cn: "c \<noteq> n" using d by auto
  have hA: "heights_ok s' A" using h(1) d by (subst heights_ok_frame [of A s' s]) (auto simp: H)
  have hB: "heights_ok s' B" using h(2) d by (subst heights_ok_frame [of B s' s]) (auto simp: H)
  have hC: "heights_ok s' C" using h(3) d by (subst heights_ok_frame [of C s' s]) (auto simp: H)
  have bn: "height (Node A n B) \<le> 127" using bound by simp
  have hn: "sint (height_of s' n) = int (height (Node A n B))"
    using stored_rot_hd [OF tA h(1) tB h(2) bn] by (simp add: H)
  have "sint (avl_height_fn s (right_of s c)) = int (height C)"
    using stored_height [OF tC h(3)] .
  moreover have "sint (rot_hd s (left_of s n) (left_of s c)) = int (height (Node A n B))"
    using hn by (simp add: H)
  ultimately have hc: "sint (height_of s' c) = int (height (Node (Node A n B) c C))"
    using bound cn by (simp add: H sint8_succ sint_max_int8)
  from run t1 hA hB hC hn hc fr pn show ?thesis by simp
qed

text \<open>Rebuilding the tree above a subtree that was changed within its frame.\<close>

lemma frame_outside:
  assumes "frame s s' T (Some b) p p'" "a \<notin> T" "a \<noteq> b"
  shows "parent_of s' a = parent_of s a" "left_of s' a = left_of s a"
    "right_of s' a = right_of s a" "height_of s' a = height_of s a"
  using assms by (auto simp: frame_def)

lemma rebuild_left:
  assumes t: "is_tree s par (Some b) (Node l b r)" and d: "distinct (inorder (Node l b r))"
    and fr: "frame s s' (set_tree l) (Some b) (left_of s b) p'"
    and l': "is_tree s' (Some b) p' l'"
  shows "is_tree s' par (Some b) (Node l' b r)" "heights_ok s' r = heights_ok s r"
    "height_of s' b = height_of s b" "root_node s' = root_node s"
proof -
  from t have pb: "parent_of s b = par" and tr: "is_tree s (Some b) (right_of s b) r" by auto
  have bl: "b \<notin> set_tree l" using d by auto
  with fr have b: "parent_of s' b = parent_of s b" "left_of s' b = p'" "right_of s' b = right_of s b"
    "height_of s' b = height_of s b" "root_node s' = root_node s"
    by (auto simp: frame_def)
  have r: "parent_of s' a = parent_of s a \<and> left_of s' a = left_of s a \<and> right_of s' a = right_of s a
      \<and> height_of s' a = height_of s a"
    if "a \<in> set_tree r" for a
    using frame_outside [OF fr, of a] that d by auto
  have "is_tree s' (Some b) (right_of s b) r" using r by (intro is_tree_frame [OF tr]) auto
  with b pb l' show "is_tree s' par (Some b) (Node l' b r)" by simp
  show "heights_ok s' r = heights_ok s r" using r by (intro heights_ok_frame) auto
  show "height_of s' b = height_of s b" "root_node s' = root_node s" using b by auto
qed

lemma rebuild_right:
  assumes t: "is_tree s par (Some b) (Node l b r)" and d: "distinct (inorder (Node l b r))"
    and fr: "frame s s' (set_tree r) (Some b) (right_of s b) p'"
    and r': "is_tree s' (Some b) p' r'"
    and r: "r \<noteq> Leaf"
  shows "is_tree s' par (Some b) (Node l b r')" "heights_ok s' l = heights_ok s l"
    "height_of s' b = height_of s b" "root_node s' = root_node s"
proof -
  from t have pb: "parent_of s b = par" and tl: "is_tree s (Some b) (left_of s b) l"
    and tr: "is_tree s (Some b) (right_of s b) r" by auto
  from tr r obtain x where x: "right_of s b = Some x" "x \<in> set_tree r"
    by (cases r) auto
  have "left_of s b \<noteq> right_of s b"
    using tl x d by (cases l) auto
  moreover have br: "b \<notin> set_tree r" using d by auto
  ultimately have b: "parent_of s' b = parent_of s b" "right_of s' b = p'" "left_of s' b = left_of s b"
    "height_of s' b = height_of s b" "root_node s' = root_node s"
    using fr by (auto simp: frame_def)
  have l: "parent_of s' a = parent_of s a \<and> left_of s' a = left_of s a \<and> right_of s' a = right_of s a
      \<and> height_of s' a = height_of s a"
    if "a \<in> set_tree l" for a
    using frame_outside [OF fr, of a] that d by auto
  have "is_tree s' (Some b) (left_of s b) l" using l by (intro is_tree_frame [OF tl]) auto
  with b pb r' show "is_tree s' par (Some b) (Node l b r')" by simp
  show "heights_ok s' l = heights_ok s l" using l by (intro heights_ok_frame) auto
  show "height_of s' b = height_of s b" "root_node s' = root_node s" using b by auto
qed

lemma frame_trans:
  assumes "frame s s1 T1 (Some b) p p1" "frame s1 s2 T par (Some b) q" "T1 \<subseteq> T" "b \<in> T"
    and "\<forall>g. par = Some g \<longrightarrow> g \<notin> T"
  shows "frame s s2 T par (Some b) q"
proof -
  have *: "parent_of s1 a = parent_of s a \<and> left_of s1 a = left_of s a \<and>
      right_of s1 a = right_of s a \<and> height_of s1 a = height_of s a" if "a \<notin> T" for a
    using frame_outside [OF assms(1), of a] that assms(3,4) by auto
  have r: "root_node s1 = root_node s" using assms(1) by (simp add: frame_def)
  show ?thesis
  proof (cases par)
    case None
    with * r assms(2) show ?thesis by (simp add: frame_def)
  next
    case (Some g)
    with assms(5) have "g \<notin> T" by simp
    from * [OF this] * r assms(2) Some show ?thesis by (simp add: frame_def)
  qed
qed

lemma frame_set_height:
  "n \<in> T \<Longrightarrow> frame s (set_height n v s) T par p p"
  by (auto simp: frame_def split: option.splits)

section \<open>The loop body within a subtree\<close>

lemma root_ptr_simps [simp]: "root_ptr Leaf = None" "root_ptr (Node l a r) = Some a"
  by (simp_all add: root_ptr_def)

lemma is_tree_root_ptr: "is_tree s par p t \<Longrightarrow> p = root_ptr t"
  by (cases t) auto

lemma frame_set_height_pre:
  "frame (set_height n v s) s' T par p q \<Longrightarrow> n \<in> T \<Longrightarrow> frame s s' T par p q"
  by (auto simp: frame_def split: option.splits if_splits)

lemma left_heavy_local:
  assumes t: "is_tree s par (Some b) (Node (Node A c B) b r)"
    and d: "distinct (inorder (Node (Node A c B) b r))"
    and g: "\<forall>g. par = Some g \<longrightarrow> g \<notin> set_tree (Node (Node A c B) b r)"
    and h: "heights_ok s A" "heights_ok s B" "heights_ok s r"
    and heavy: "height r + 1 < height (Node A c B)"
    and bound: "height (Node (Node A c B) b r) \<le> 127"
  shows "\<exists>s'. ((if avl_height_fn s (left_of s c) <s avl_height_fn s (right_of s c)
                then avl_rotate_left (Some c) s else Some s) \<bind> avl_rotate_right (Some b)) = Some s' \<and>
           is_tree s' par (root_ptr (bal_node (Node A c B) b r)) (bal_node (Node A c B) b r) \<and>
           heights_ok s' (bal_node (Node A c B) b r) \<and>
           frame s s' (set_tree (Node (Node A c B) b r)) par (Some b) (root_ptr (bal_node (Node A c B) b r)) \<and>
           parent_of s' b = root_ptr (bal_node (Node A c B) b r)"
proof -
  let ?T = "Node (Node A c B) b r"
  from t have tA: "is_tree s (Some c) (left_of s c) A" and tB: "is_tree s (Some c) (right_of s c) B"
    and tl: "is_tree s (Some b) (Some c) (Node A c B)" and lb: "left_of s b = Some c" by auto
  have cmp: "avl_height_fn s (left_of s c) <s avl_height_fn s (right_of s c) \<longleftrightarrow> height A < height B"
    using stored_height [OF tA h(1)] stored_height [OF tB h(2)] by (simp add: word_sless_alt)
  show ?thesis
  proof (cases "height A < height B")
    case True
    then obtain B1 e B2 where B: "B = Node B1 e B2" by (cases B) auto
    have bn: "bal_node (Node A c B) b r = Node (Node A c B1) e (Node B2 b r)"
      using heavy True B by (simp add: bal_node_def)
    have hB: "heights_ok s B1" "heights_ok s B2" using h(2) B by auto
    have tl': "is_tree s (Some b) (Some c) (Node A c (Node B1 e B2))" using tl B by simp
    have dl: "distinct (inorder (Node A c (Node B1 e B2)))" using d B by auto
    have gl: "\<forall>g. Some b = Some g \<longrightarrow> g \<notin> set_tree (Node A c (Node B1 e B2))" using d B by auto
    have b1: "height (Node (Node A c B1) e B2) \<le> 127" using bound True B by auto
    from rot_left_local [OF tl' dl gl h(1) hB b1] obtain s2 where
      run2: "avl_rotate_left (Some c) s = Some s2"
      and t2: "is_tree s2 (Some b) (Some e) (Node (Node A c B1) e B2)"
      and h2: "heights_ok s2 (Node (Node A c B1) e B2)"
      and f2: "frame s s2 (set_tree (Node A c (Node B1 e B2))) (Some b) (Some c) (Some e)" by auto
    have f2': "frame s s2 (set_tree (Node A c B)) (Some b) (left_of s b) (Some e)"
      using f2 lb B by simp
    note rb = rebuild_left [OF t d f2' t2]
    have d3: "distinct (inorder (Node (Node (Node A c B1) e B2) b r))" using d B by auto
    have g3: "\<forall>g. par = Some g \<longrightarrow> g \<notin> set_tree (Node (Node (Node A c B1) e B2) b r)"
      using g B by auto
    have h3: "heights_ok s2 (Node A c B1)" "heights_ok s2 B2" "heights_ok s2 r"
      using h2 rb(2) h(3) by auto
    have b3: "height (Node (Node A c B1) e (Node B2 b r)) \<le> 127"
      using bound True B heavy by auto
    from rot_right_local [OF rb(1) d3 g3 h3 b3] obtain s3 where
      run3: "avl_rotate_right (Some b) s2 = Some s3"
      and t3: "is_tree s3 par (Some e) (Node (Node A c B1) e (Node B2 b r))"
      and hh3: "heights_ok s3 (Node (Node A c B1) e (Node B2 b r))"
      and f3: "frame s2 s3 (set_tree (Node (Node (Node A c B1) e B2) b r)) par (Some b) (Some e)"
      and p3: "parent_of s3 b = Some e" by auto
    have seteq: "set_tree (Node (Node (Node A c B1) e B2) b r) = set_tree ?T" using B by auto
    have "frame s s3 (set_tree ?T) par (Some b) (Some e)"
      using frame_trans [OF f2 f3 [unfolded seteq]] g B by auto
    with run2 run3 t3 hh3 p3 True cmp show ?thesis by (simp add: bn)
  next
    case False
    have bn: "bal_node (Node A c B) b r = Node A c (Node B b r)"
      using heavy False by (simp add: bal_node_def)
    have b3: "height (Node A c (Node B b r)) \<le> 127"
      using bound False heavy by auto
    from rot_right_local [OF t d g h b3] False cmp show ?thesis by (simp add: bn)
  qed
qed

lemma right_heavy_local:
  assumes t: "is_tree s par (Some b) (Node l b (Node B c C))"
    and d: "distinct (inorder (Node l b (Node B c C)))"
    and g: "\<forall>g. par = Some g \<longrightarrow> g \<notin> set_tree (Node l b (Node B c C))"
    and h: "heights_ok s l" "heights_ok s B" "heights_ok s C"
    and heavy: "height l + 1 < height (Node B c C)"
    and bound: "height (Node l b (Node B c C)) \<le> 127"
  shows "\<exists>s'. ((if avl_height_fn s (right_of s c) <s avl_height_fn s (left_of s c)
                then avl_rotate_right (Some c) s else Some s) \<bind> avl_rotate_left (Some b)) = Some s' \<and>
           is_tree s' par (root_ptr (bal_node l b (Node B c C))) (bal_node l b (Node B c C)) \<and>
           heights_ok s' (bal_node l b (Node B c C)) \<and>
           frame s s' (set_tree (Node l b (Node B c C))) par (Some b) (root_ptr (bal_node l b (Node B c C))) \<and>
           parent_of s' b = root_ptr (bal_node l b (Node B c C))"
proof -
  let ?T = "Node l b (Node B c C)"
  from t have tB: "is_tree s (Some c) (left_of s c) B" and tC: "is_tree s (Some c) (right_of s c) C"
    and tr: "is_tree s (Some b) (Some c) (Node B c C)" and rb: "right_of s b = Some c" by auto
  have cmp: "avl_height_fn s (right_of s c) <s avl_height_fn s (left_of s c) \<longleftrightarrow> height C < height B"
    using stored_height [OF tB h(2)] stored_height [OF tC h(3)] by (simp add: word_sless_alt)
  have nh: "\<not> height (Node B c C) + 1 < height l" using heavy by simp
  show ?thesis
  proof (cases "height C < height B")
    case True
    then obtain B1 e B2 where B: "B = Node B1 e B2" by (cases B) auto
    have bn: "bal_node l b (Node B c C) = Node (Node l b B1) e (Node B2 c C)"
      using heavy nh True B by (simp add: bal_node_def)
    have hB: "heights_ok s B1" "heights_ok s B2" using h(2) B by auto
    have tr': "is_tree s (Some b) (Some c) (Node (Node B1 e B2) c C)" using tr B by simp
    have dl: "distinct (inorder (Node (Node B1 e B2) c C))" using d B by auto
    have gl: "\<forall>g. Some b = Some g \<longrightarrow> g \<notin> set_tree (Node (Node B1 e B2) c C)" using d B by auto
    have b1: "height (Node B1 e (Node B2 c C)) \<le> 127" using bound True B by auto
    from rot_right_local [OF tr' dl gl hB h(3) b1] obtain s2 where
      run2: "avl_rotate_right (Some c) s = Some s2"
      and t2: "is_tree s2 (Some b) (Some e) (Node B1 e (Node B2 c C))"
      and h2: "heights_ok s2 (Node B1 e (Node B2 c C))"
      and f2: "frame s s2 (set_tree (Node (Node B1 e B2) c C)) (Some b) (Some c) (Some e)" by auto
    have f2': "frame s s2 (set_tree (Node B c C)) (Some b) (right_of s b) (Some e)"
      using f2 rb B by simp
    have "Node B c C \<noteq> Leaf" by simp
    note rbd = rebuild_right [OF t d f2' t2 this]
    have d3: "distinct (inorder (Node l b (Node B1 e (Node B2 c C))))" using d B by auto
    have g3: "\<forall>g. par = Some g \<longrightarrow> g \<notin> set_tree (Node l b (Node B1 e (Node B2 c C)))"
      using g B by auto
    have h3: "heights_ok s2 l" "heights_ok s2 B1" "heights_ok s2 (Node B2 c C)"
      using h2 rbd(2) h(1) by auto
    have b3: "height (Node (Node l b B1) e (Node B2 c C)) \<le> 127"
      using bound True B heavy by auto
    from rot_left_local [OF rbd(1) d3 g3 h3 b3] obtain s3 where
      run3: "avl_rotate_left (Some b) s2 = Some s3"
      and t3: "is_tree s3 par (Some e) (Node (Node l b B1) e (Node B2 c C))"
      and hh3: "heights_ok s3 (Node (Node l b B1) e (Node B2 c C))"
      and f3: "frame s2 s3 (set_tree (Node l b (Node B1 e (Node B2 c C)))) par (Some b) (Some e)"
      and p3: "parent_of s3 b = Some e" by auto
    have seteq: "set_tree (Node l b (Node B1 e (Node B2 c C))) = set_tree ?T" using B by auto
    have "frame s s3 (set_tree ?T) par (Some b) (Some e)"
      using frame_trans [OF f2 f3 [unfolded seteq]] g B by auto
    with run2 run3 t3 hh3 p3 True cmp show ?thesis by (simp add: bn)
  next
    case False
    have bn: "bal_node l b (Node B c C) = Node (Node l b B) c C"
      using heavy nh False by (simp add: bal_node_def)
    have b3: "height (Node (Node l b B) c C) \<le> 127"
      using bound False heavy by auto
    from rot_left_local [OF t d g h b3] False cmp show ?thesis by (simp add: bn)
  qed
qed

text \<open>The loop body at the root of a subtree whose two subtrees have correct heights.\<close>

lemma body_local:
  assumes t: "is_tree s par (Some b) (Node l b r)" and d: "distinct (inorder (Node l b r))"
    and g: "\<forall>g. par = Some g \<longrightarrow> g \<notin> set_tree (Node l b r)"
    and hl: "heights_ok s l" and hr: "heights_ok s r"
    and bound: "height (Node l b r) \<le> 127"
  shows "\<exists>s'. avl_rebalance_body b s = Some s' \<and>
           is_tree s' par (root_ptr (bal_node l b r)) (bal_node l b r) \<and>
           heights_ok s' (bal_node l b r) \<and>
           frame s s' (set_tree (Node l b r)) par (Some b) (root_ptr (bal_node l b r)) \<and>
           parent_of s' b = (if root_ptr (bal_node l b r) = Some b then par else root_ptr (bal_node l b r))"
proof -
  from t have pn: "parent_of s b = par" and tl: "is_tree s (Some b) (left_of s b) l"
    and tr: "is_tree s (Some b) (right_of s b) r" by auto
  define s1 where "s1 = set_height b (rot_hd s (left_of s b) (right_of s b)) s"
  have nl: "left_of s b \<noteq> Some b" using tl d by (auto dest: is_tree_root_in)
  have nr: "right_of s b \<noteq> Some b" using tr d by (auto dest: is_tree_root_in)
  have h1: "avl_height_fn s1 (left_of s b) = avl_height_fn s (left_of s b)"
    "avl_height_fn s1 (right_of s b) = avl_height_fn s (right_of s b)"
    using nl nr by (simp_all add: s1_def avl_height_fn_set_height)
  have sl: "sint (avl_height_fn s (left_of s b)) = int (height l)"
    and sr: "sint (avl_height_fn s (right_of s b)) = int (height r)"
    using stored_height [OF tl hl] stored_height [OF tr hr] by auto
  have bal: "sint (avl_height_fn s (left_of s b) - avl_height_fn s (right_of s b))
      = int (height l) - int (height r)"
    using sl sr by (simp add: sint8_sub)
  have b1: "1 <s avl_height_fn s1 (left_of s b) - avl_height_fn s1 (right_of s b)
      \<longleftrightarrow> height r + 1 < height l"
    and b2: "avl_height_fn s1 (left_of s b) - avl_height_fn s1 (right_of s b) <s - 1
      \<longleftrightarrow> height l + 1 < height r"
    using bal by (auto simp: h1 word_sless_alt)
  have fs1: "\<And>x. left_of s1 x = left_of s x" "\<And>x. right_of s1 x = right_of s x"
    by (simp_all add: s1_def)
  have unf: "avl_rebalance_body b s =
     (if height r + 1 < height l then
          (case left_of s b of None \<Rightarrow> None
           | Some x \<Rightarrow>
               (if avl_height_fn s1 (left_of s x) <s avl_height_fn s1 (right_of s x)
                then avl_rotate_left (Some x) s1 else Some s1) \<bind> avl_rotate_right (Some b))
        else if height l + 1 < height r then
          (case right_of s b of None \<Rightarrow> None
           | Some x \<Rightarrow>
               (if avl_height_fn s1 (right_of s x) <s avl_height_fn s1 (left_of s x)
                then avl_rotate_right (Some x) s1 else Some s1) \<bind> avl_rotate_left (Some b))
        else Some s1)"
    unfolding rebalance_body_unfold Let_def s1_def [symmetric] b1 b2 by (rule refl)
  have t1: "is_tree s1 par (Some b) (Node l b r)" using t by (simp add: s1_def)
  have hl1: "heights_ok s1 l" using hl d
    by (subst heights_ok_frame [of l s1 s]) (auto simp: s1_def)
  have hr1: "heights_ok s1 r" using hr d
    by (subst heights_ok_frame [of r s1 s]) (auto simp: s1_def)
  have hb1: "sint (height_of s1 b) = int (height (Node l b r))"
    using stored_rot_hd [OF tl hl tr hr bound] by (simp add: s1_def)
  have f1: "frame s s1 (set_tree (Node l b r)) par (Some b) (Some b)"
    unfolding s1_def by (rule frame_set_height) simp
  consider (lh) "height r + 1 < height l" | (rh) "height l + 1 < height r"
    | (ok) "\<not> height r + 1 < height l" "\<not> height l + 1 < height r"
    by linarith
  then show ?thesis
  proof cases
    case lh
    then obtain A c B where l: "l = Node A c B" by (cases l) auto
    have lc: "left_of s b = Some c" using tl l by simp
    have hs: "heights_ok s1 A" "heights_ok s1 B" using hl1 l by auto
    have cb: "c \<noteq> b" using d l by auto
    from left_heavy_local [OF t1 [unfolded l] d [unfolded l] g [unfolded l] hs hr1
        lh [unfolded l] bound [unfolded l]]
    obtain s' where
      run: "((if avl_height_fn s1 (left_of s1 c) <s avl_height_fn s1 (right_of s1 c)
                then avl_rotate_left (Some c) s1 else Some s1) \<bind> avl_rotate_right (Some b)) = Some s'"
      and t': "is_tree s' par (root_ptr (bal_node l b r)) (bal_node l b r)"
      and h': "heights_ok s' (bal_node l b r)"
      and f': "frame s1 s' (set_tree (Node l b r)) par (Some b) (root_ptr (bal_node l b r))"
      and p': "parent_of s' b = root_ptr (bal_node l b r)"
      unfolding l by blast
    have body: "avl_rebalance_body b s = Some s'"
      using run lh lc by (simp add: unf fs1)
    have "frame s s' (set_tree (Node l b r)) par (Some b) (root_ptr (bal_node l b r))"
      using f' unfolding s1_def by (rule frame_set_height_pre) simp
    moreover have "root_ptr (bal_node l b r) \<noteq> Some b"
      using lh l cb d by (auto simp: bal_node_def split: tree.splits)
    ultimately show ?thesis using body t' h' p' by simp
  next
    case rh
    then obtain B c C where r: "r = Node B c C" by (cases r) auto
    have rc: "right_of s b = Some c" using tr r by simp
    have hs: "heights_ok s1 B" "heights_ok s1 C" using hr1 r by auto
    have cb: "c \<noteq> b" using d r by auto
    from right_heavy_local [OF t1 [unfolded r] d [unfolded r] g [unfolded r] hl1 hs
        rh [unfolded r] bound [unfolded r]]
    obtain s' where
      run: "((if avl_height_fn s1 (right_of s1 c) <s avl_height_fn s1 (left_of s1 c)
                then avl_rotate_right (Some c) s1 else Some s1) \<bind> avl_rotate_left (Some b)) = Some s'"
      and t': "is_tree s' par (root_ptr (bal_node l b r)) (bal_node l b r)"
      and h': "heights_ok s' (bal_node l b r)"
      and f': "frame s1 s' (set_tree (Node l b r)) par (Some b) (root_ptr (bal_node l b r))"
      and p': "parent_of s' b = root_ptr (bal_node l b r)"
      unfolding r by blast
    have body: "avl_rebalance_body b s = Some s'"
      using run rh rc by (simp add: unf fs1)
    have "frame s s' (set_tree (Node l b r)) par (Some b) (root_ptr (bal_node l b r))"
      using f' unfolding s1_def by (rule frame_set_height_pre) simp
    moreover have "root_ptr (bal_node l b r) \<noteq> Some b"
      using rh r cb d by (auto simp: bal_node_def split: tree.splits)
    ultimately show ?thesis using body t' h' p' by simp
  next
    case ok
    then have bn: "bal_node l b r = Node l b r" by (simp add: bal_node_def)
    have body: "avl_rebalance_body b s = Some s1"
      using ok by (simp add: unf)
    have "parent_of s1 b = par" using pn by (simp add: s1_def)
    with body t1 hl1 hr1 hb1 f1 show ?thesis by (simp add: bn)
  qed
qed

section \<open>One level of the walk\<close>

lemma inorder_bal_node: "inorder (bal_node l b r) = inorder l @ b # inorder r"
  by (auto simp: bal_node_def split: tree.splits)

lemma set_tree_bal_node: "set_tree (bal_node l b r) = insert b (set_tree l \<union> set_tree r)"
  using arg_cong [OF inorder_bal_node [of l b r], of set] by simp

lemma bal_node_not_Leaf: "bal_node l b r \<noteq> Leaf"
  by (auto simp: bal_node_def split: tree.splits)

lemma bal_node_balanced:
  assumes "balanced l" "balanced r" "height l \<le> height r + 2" "height r \<le> height l + 2"
  shows "balanced (bal_node l b r)"
  using assms by (auto simp: bal_node_def simp del: eq_height_0 eq_0_height split: tree.splits)

lemma height_bal_node:
  assumes "balanced l" "balanced r" "height l \<le> height r + 2" "height r \<le> height l + 2"
  shows "height (bal_node l b r) = height (Node l b r) \<or>
         (height (bal_node l b r) + 1 = height (Node l b r) \<and>
          (height l = height r + 2 \<or> height r = height l + 2))"
  using assms by (auto simp: bal_node_def simp del: eq_height_0 eq_0_height split: tree.splits)

lemma set_height_same: "set_height b (height_of s b) s = s"
  by (simp add: set_height_def height_of_def)

lemma body_noop:
  assumes t: "is_tree s par (Some b) (Node l b r)" and d: "distinct (inorder (Node l b r))"
    and h: "heights_ok s (Node l b r)"
    and ok: "height l \<le> height r + 1" "height r \<le> height l + 1"
  shows "avl_rebalance_body b s = Some s"
proof -
  from t have tl: "is_tree s (Some b) (left_of s b) l"
    and tr: "is_tree s (Some b) (right_of s b) r" by auto
  from h have hl: "heights_ok s l" and hr: "heights_ok s r"
    and hb: "sint (height_of s b) = int (height (Node l b r))" by auto
  have bound: "height (Node l b r) \<le> 127"
    using hb sint8_range [of "height_of s b"] by linarith
  have "sint (rot_hd s (left_of s b) (right_of s b)) = sint (height_of s b)"
    using stored_rot_hd [OF tl hl tr hr bound] hb by simp
  then have "rot_hd s (left_of s b) (right_of s b) = height_of s b"
    by (rule signed_word_eqI)
  then have s1: "set_height b (rot_hd s (left_of s b) (right_of s b)) s = s"
    by (simp add: set_height_same)
  have sl: "sint (avl_height_fn s (left_of s b)) = int (height l)"
    and sr: "sint (avl_height_fn s (right_of s b)) = int (height r)"
    using stored_height [OF tl hl] stored_height [OF tr hr] by auto
  have bal: "sint (avl_height_fn s (left_of s b) - avl_height_fn s (right_of s b))
      = int (height l) - int (height r)"
    using sl sr by (simp add: sint8_sub)
  show ?thesis
    using ok by (simp add: rebalance_body_unfold s1 Let_def word_sless_alt bal)
qed

lemma heights_ok_bound: "heights_ok s t \<Longrightarrow> height t \<le> 127"
proof (cases t)
  case Leaf
  then show ?thesis by simp
next
  case (Node l a r)
  assume "heights_ok s t"
  with Node have "sint (height_of s a) = int (height t)" by simp
  with sint8_range [of "height_of s a"] show ?thesis by linarith
qed

text \<open>
  One visit of the walk, followed by the visit of the promoted node if there was a
  rotation: the walk goes on at the parent of the subtree.
\<close>

lemma step_up:
  assumes t: "is_tree s par (Some b) (Node l b r)" and d: "distinct (inorder (Node l b r))"
    and g: "\<forall>g. par = Some g \<longrightarrow> g \<notin> set_tree (Node l b r)"
    and hl: "heights_ok s l" and hr: "heights_ok s r"
    and bl: "balanced l" and br: "balanced r"
    and c2: "height l \<le> height r + 2" "height r \<le> height l + 2"
    and bound: "height (Node l b r) \<le> 127"
  shows "\<exists>s'. avl_rebalance (Some b) s = avl_rebalance par s' \<and>
           is_tree s' par (root_ptr (bal_node l b r)) (bal_node l b r) \<and>
           heights_ok s' (bal_node l b r) \<and>
           frame s s' (set_tree (Node l b r)) par (Some b) (root_ptr (bal_node l b r))"
proof -
  from body_local [OF t d g hl hr bound] obtain s' where
    body: "avl_rebalance_body b s = Some s'"
    and t': "is_tree s' par (root_ptr (bal_node l b r)) (bal_node l b r)"
    and h': "heights_ok s' (bal_node l b r)"
    and f': "frame s s' (set_tree (Node l b r)) par (Some b) (root_ptr (bal_node l b r))"
    and p': "parent_of s' b = (if root_ptr (bal_node l b r) = Some b then par else root_ptr (bal_node l b r))"
    by blast
  have w1: "avl_rebalance (Some b) s = avl_rebalance (parent_of s' b) s'"
    using body by (subst avl_rebalance.simps) simp
  have "avl_rebalance (parent_of s' b) s' = avl_rebalance par s'"
  proof (cases "root_ptr (bal_node l b r) = Some b")
    case True
    with p' show ?thesis by simp
  next
    case False
    obtain L c R where T: "bal_node l b r = Node L c R"
      using bal_node_not_Leaf [of l b r] by (cases "bal_node l b r") auto
    with p' False have pb: "parent_of s' b = Some c" by simp
    from t' T have tc: "is_tree s' par (Some c) (Node L c R)" by simp
    have dc: "distinct (inorder (Node L c R))"
      using d inorder_bal_node [of l b r] T by simp
    have hc: "heights_ok s' (Node L c R)" using h' T by simp
    have "balanced (Node L c R)" using bal_node_balanced [OF bl br c2, of b] T by simp
    then have ok: "height L \<le> height R + 1" "height R \<le> height L + 1" by auto
    have "avl_rebalance_body c s' = Some s'" by (rule body_noop [OF tc dc hc ok])
    moreover have "parent_of s' c = par" using tc by simp
    ultimately have "avl_rebalance (Some c) s' = avl_rebalance par s'"
      by (subst avl_rebalance.simps) simp
    with pb show ?thesis by simp
  qed
  with w1 t' h' f' show ?thesis by auto
qed

section \<open>The walk up to the root\<close>

lemma inorder_plug: "inorder (plug t c) = ctx_pre c @ inorder t @ ctx_post c"
  by (induction t c rule: plug.induct) auto

lemma crumb_nodes_set: "crumb_nodes c = set (ctx_pre c) \<union> set (ctx_post c)"
  by (induction c rule: crumb_nodes.induct) auto

lemma set_tree_plug: "set_tree (plug t c) = set_tree t \<union> crumb_nodes c"
  using arg_cong [OF inorder_plug [of t c], of set] by (auto simp: crumb_nodes_set)

lemma distinct_plug:
  "distinct (inorder (plug t c)) \<longleftrightarrow>
     distinct (inorder t) \<and> distinct (ctx_pre c @ ctx_post c) \<and> set_tree t \<inter> crumb_nodes c = {}"
  by (auto simp: inorder_plug crumb_nodes_set)

lemma is_tree_plug:
  "is_tree s None (root_node s) (plug t c) \<longleftrightarrow>
     is_tree s (above c) (root_ptr t) t \<and> is_ctx s (root_ptr t) c"
proof (induction t c rule: plug.induct)
  case (1 t)
  show ?case by (cases t) auto
next
  case (2 t b sib c)
  show ?case unfolding plug.simps 2 by (cases t) auto
next
  case (3 t b sib c)
  show ?case unfolding plug.simps 3 by (cases t) auto
qed

lemma ctx_ok_bound: "ctx_ok s h c \<Longrightarrow> h \<le> 127"
  by (induction s h c rule: ctx_ok.induct) auto

lemma ctx_ok_same:
  "(\<And>a. a \<in> crumb_nodes c \<Longrightarrow> height_of s' a = height_of s a) \<Longrightarrow> ctx_ok s' h c = ctx_ok s h c"
proof (induction s h c rule: ctx_ok.induct)
  case (1 s h)
  show ?case by simp
next
  case (2 s h b sib c)
  then have "heights_ok s' sib = heights_ok s sib" by (intro heights_ok_frame) auto
  with 2 show ?case by auto
next
  case (3 s h b sib c)
  then have "heights_ok s' sib = heights_ok s sib" by (intro heights_ok_frame) auto
  with 3 show ?case by auto
qed

lemma is_ctx_same:
  assumes "is_ctx s p c" "root_node s' = root_node s"
    and "\<And>a. a \<in> crumb_nodes c \<Longrightarrow> parent_of s' a = parent_of s a \<and> left_of s' a = left_of s a \<and>
           right_of s' a = right_of s a"
  shows "is_ctx s' p c"
  using assms
proof (induction s p c rule: is_ctx.induct)
  case (1 s p)
  then show ?case by simp
next
  case (2 s p b sib c)
  then have "is_tree s' (Some b) (right_of s b) sib"
    by (intro is_tree_frame [of s "Some b" "right_of s b" sib s']) auto
  with 2 show ?case by auto
next
  case (3 s p b sib c)
  then have "is_tree s' (Some b) (left_of s b) sib"
    by (intro is_tree_frame [of s "Some b" "left_of s b" sib s']) auto
  with 3 show ?case by auto
qed

lemma is_ctx_frame:
  assumes c: "is_ctx s (Some a) c" and d: "distinct (ctx_pre c @ ctx_post c)"
    and fr: "frame s s' S (above c) (Some a) p'"
    and S: "S \<inter> crumb_nodes c = {}" and a: "a \<in> S"
  shows "is_ctx s' p' c \<and> (\<forall>x \<in> crumb_nodes c. height_of s' x = height_of s x)"
proof (cases c)
  case Nil
  with c fr show ?thesis by (simp add: frame_def)
next
  case (Cons k c')
  obtain b sib where k: "k = In_left b sib \<or> k = In_right b sib" by (cases k) auto
  then have ab: "above c = Some b" using Cons by auto
  have bS: "b \<notin> S" and sibS: "set_tree sib \<inter> S = {}" and cS: "crumb_nodes c' \<inter> S = {}"
    using S Cons k by auto
  have bsib: "b \<notin> set_tree sib" and bc: "b \<notin> crumb_nodes c'"
    using d Cons k by (auto simp: crumb_nodes_set)
  have fr': "frame s s' S (Some b) (Some a) p'" using fr ab by simp
  have out: "parent_of s' x = parent_of s x \<and> left_of s' x = left_of s x \<and>
      right_of s' x = right_of s x \<and> height_of s' x = height_of s x"
    if "x \<notin> S" "x \<noteq> b" for x
    using frame_outside [OF fr' that] by simp
  have pb: "parent_of s' b = parent_of s b" "height_of s' b = height_of s b"
    and rt: "root_node s' = root_node s"
    using fr' bS by (auto simp: frame_def)
  have c': "is_ctx s (Some b) c'" using c Cons k by auto
  have outc: "parent_of s' x = parent_of s x \<and> left_of s' x = left_of s x \<and>
      right_of s' x = right_of s x \<and> height_of s' x = height_of s x"
    if "x \<in> crumb_nodes c'" for x
    using that cS bc by (intro out) auto
  have outs: "parent_of s' x = parent_of s x \<and> left_of s' x = left_of s x \<and>
      right_of s' x = right_of s x \<and> height_of s' x = height_of s x"
    if "x \<in> set_tree sib" for x
    using that sibS bsib by (intro out) auto
  have c'': "is_ctx s' (Some b) c'"
    by (intro is_ctx_same [OF c' rt]) (simp add: outc)
  have hts: "\<forall>x \<in> crumb_nodes c. height_of s' x = height_of s x"
    using Cons k pb outc outs by auto
  from k show ?thesis
  proof
    assume kl: "k = In_left b sib"
    with c Cons have lb: "left_of s b = Some a" and tp: "parent_of s b = above c'"
      and ts: "is_tree s (Some b) (right_of s b) sib" by auto
    from fr' lb have "left_of s' b = p'" "right_of s' b = right_of s b" by (auto simp: frame_def)
    moreover have "is_tree s' (Some b) (right_of s b) sib"
      by (intro is_tree_frame [OF ts]) (simp add: outs)
    ultimately show ?thesis using Cons kl c'' pb tp hts by simp
  next
    assume kr: "k = In_right b sib"
    with c Cons have rb: "right_of s b = Some a" and tp: "parent_of s b = above c'"
      and ts: "is_tree s (Some b) (left_of s b) sib" by auto
    have "left_of s b \<noteq> Some a"
    proof
      assume "left_of s b = Some a"
      with ts have "a \<in> set_tree sib" by (auto dest: is_tree_root_in)
      with a sibS show False by auto
    qed
    with fr' rb have "right_of s' b = p'" "left_of s' b = left_of s b" by (auto simp: frame_def)
    moreover have "is_tree s' (Some b) (left_of s b) sib"
      by (intro is_tree_frame [OF ts]) (simp add: outs)
    ultimately show ?thesis using Cons kr c'' pb tp hts by simp
  qed
qed

lemma plug_frame:
  assumes t: "is_tree s None (root_node s) (plug (Node l a r) c)"
    and d: "distinct (inorder (plug (Node l a r) c))"
    and fr: "frame s s' (set_tree (Node l a r)) (above c) (Some a) (root_ptr t')"
    and t': "is_tree s' (above c) (root_ptr t') t'"
    and sub: "set_tree t' \<subseteq> set_tree (Node l a r)" and d': "distinct (inorder t')"
  shows "is_tree s' None (root_node s') (plug t' c)" "distinct (inorder (plug t' c))"
    "ctx_ok s' h c = ctx_ok s h c"
proof -
  from t have c: "is_ctx s (Some a) c" by (simp add: is_tree_plug)
  from d have dc: "distinct (ctx_pre c @ ctx_post c)"
    and S: "set_tree (Node l a r) \<inter> crumb_nodes c = {}" by (simp_all add: distinct_plug)
  have "a \<in> set_tree (Node l a r)" by simp
  from is_ctx_frame [OF c dc fr S this]
  have c': "is_ctx s' (root_ptr t') c" and hts: "\<forall>x \<in> crumb_nodes c. height_of s' x = height_of s x"
    by auto
  from c' t' show "is_tree s' None (root_node s') (plug t' c)" by (simp add: is_tree_plug)
  from dc S sub d' show "distinct (inorder (plug t' c))" by (auto simp: distinct_plug)
  from hts show "ctx_ok s' h c = ctx_ok s h c" by (intro ctx_ok_same) auto
qed

lemma above_outside:
  "distinct (inorder (plug t c)) \<Longrightarrow> \<forall>g. above c = Some g \<longrightarrow> g \<notin> set_tree t"
  by (cases c rule: above.cases) (auto simp: distinct_plug)

text \<open>
  The walk from the node above a subtree that has become lower by at most one level:
  it returns, and the tree is again a well-formed AVL tree with the same nodes in the
  same order.
\<close>

lemma walk_up:
  assumes "is_tree s None (root_node s) (plug t c)" "distinct (inorder (plug t c))"
    and "heights_ok s t" "balanced t" "height t \<le> h" "h \<le> height t + 1" "ctx_ok s h c"
  shows "\<exists>s' t'. avl_rebalance (above c) s = Some s' \<and> wf_tree s' t' \<and> avl_inv s' t' \<and>
           inorder t' = inorder (plug t c)"
  using assms
proof (induction c arbitrary: s t h)
  case Nil
  then show ?case
    by (auto simp: avl_rebalance.simps wf_tree_def avl_inv_iff intro!: exI [of _ s] exI [of _ t])
next
  case (Cons k c)
  obtain b sib where k: "k = In_left b sib \<or> k = In_right b sib" by (cases k) auto
  define l where "l = (if k = In_left b sib then t else sib)"
  define r where "r = (if k = In_left b sib then sib else t)"
  have pl: "plug t (k # c) = plug (Node l b r) c" using k by (auto simp: l_def r_def)
  have ab: "above (k # c) = Some b" using k by auto
  have ok: "heights_ok s sib" "balanced sib" "h \<le> height sib + 1" "height sib \<le> h + 1"
    "ctx_ok s (max h (height sib) + 1) c"
    using Cons.prems(7) k by auto
  have hl: "heights_ok s l" and hr: "heights_ok s r" and bl: "balanced l" and br: "balanced r"
    using ok Cons.prems(3,4) by (auto simp: l_def r_def)
  have c2: "height l \<le> height r + 2" "height r \<le> height l + 2"
    using ok Cons.prems(5,6) by (auto simp: l_def r_def)
  have hn: "height (Node l b r) \<le> max h (height sib) + 1"
    using Cons.prems(5) by (auto simp: l_def r_def)
  have bound: "height (Node l b r) \<le> 127"
    using ctx_ok_bound [OF ok(5)] hn by linarith
  have T: "is_tree s None (root_node s) (plug (Node l b r) c)"
    and D: "distinct (inorder (plug (Node l b r) c))"
    using Cons.prems(1,2) pl by simp_all
  from T have tb: "is_tree s (above c) (Some b) (Node l b r)" by (simp add: is_tree_plug)
  from D have db: "distinct (inorder (Node l b r))" by (simp add: distinct_plug)
  note gb = above_outside [OF D]
  from step_up [OF tb db gb hl hr bl br c2 bound] obtain s1 where
    w: "avl_rebalance (Some b) s = avl_rebalance (above c) s1"
    and t1: "is_tree s1 (above c) (root_ptr (bal_node l b r)) (bal_node l b r)"
    and h1: "heights_ok s1 (bal_node l b r)"
    and f1: "frame s s1 (set_tree (Node l b r)) (above c) (Some b) (root_ptr (bal_node l b r))"
    by blast
  have sub: "set_tree (bal_node l b r) \<subseteq> set_tree (Node l b r)"
    by (simp add: set_tree_bal_node)
  have d1: "distinct (inorder (bal_node l b r))" using db by (simp add: inorder_bal_node)
  note pf = plug_frame [OF T D f1 t1 sub d1]
  have b1: "balanced (bal_node l b r)" by (rule bal_node_balanced [OF bl br c2])
  have up: "height (bal_node l b r) \<le> max h (height sib) + 1"
    using height_bal_node [OF bl br c2, of b] hn by linarith
  have lo: "max h (height sib) + 1 \<le> height (bal_node l b r) + 1"
    using height_bal_node [OF bl br c2, of b] ok(3,4) Cons.prems(5,6)
    by (auto simp: l_def r_def split: if_splits)
  have ok1: "ctx_ok s1 (max h (height sib) + 1) c" using ok(5) pf(3) by simp
  from Cons.IH [OF pf(1) pf(2) h1 b1 up lo ok1] obtain s' t' where
    "avl_rebalance (above c) s1 = Some s'" "wf_tree s' t'" "avl_inv s' t'"
    "inorder t' = inorder (plug (bal_node l b r) c)" by blast
  then show ?case using w ab pl by (auto simp: inorder_plug inorder_bal_node)
qed

section \<open>Erasing a node with at most one child\<close>

lemma plug_append: "plug t (c1 @ c2) = plug (plug t c1) c2"
  by (induction t c1 rule: plug.induct) auto

lemma tree_decompose: "a \<in> set_tree t \<Longrightarrow> \<exists>l r c. t = plug (Node l a r) c"
proof (induction t)
  case Leaf
  then show ?case by simp
next
  case (Node t1 b t2)
  show ?case
  proof (cases "a = b")
    case True
    have "Node t1 b t2 = plug (Node t1 a t2) []" using True by simp
    then show ?thesis by blast
  next
    case False
    with Node.prems consider "a \<in> set_tree t1" | "a \<in> set_tree t2" by auto
    then show ?thesis
    proof cases
      case 1
      with Node.IH(1) obtain l r c where "t1 = plug (Node l a r) c" by blast
      then have "Node t1 b t2 = plug (Node l a r) (c @ [In_left b t2])"
        by (simp add: plug_append)
      then show ?thesis by blast
    next
      case 2
      with Node.IH(2) obtain l r c where "t2 = plug (Node l a r) c" by blast
      then have "Node t1 b t2 = plug (Node l a r) (c @ [In_right b t1])"
        by (simp add: plug_append)
      then show ?thesis by blast
    qed
  qed
qed

lemma ctx_ok_of_inv:
  "heights_ok s (plug t c) \<Longrightarrow> balanced (plug t c) \<Longrightarrow>
   heights_ok s t \<and> balanced t \<and> ctx_ok s (height t) c"
proof (induction t c rule: plug.induct)
  case (1 t)
  then show ?case by (simp add: heights_ok_bound)
next
  case (2 t b sib c)
  then show ?case by auto
next
  case (3 t b sib c)
  then show ?case by (auto simp: max.commute)
qed

text \<open>The code performs the splice, whatever the state.\<close>

lemma erase_splices:
  assumes "left_of s e = None \<or> right_of s e = None"
  shows "\<exists>s1. spliced_out s s1 e \<and> avl_erase (Some e) s = avl_rebalance (parent_of s e) s1"
proof -
  define child where "child = (if left_of s e \<noteq> None then left_of s e else right_of s e)"
  define s2 where "s2 = (case child of None \<Rightarrow> s | Some c \<Rightarrow> set_parent c (parent_of s e) s)"
  define s3 where "s3 = (case parent_of s e of
                 None \<Rightarrow> set_root child s2
               | Some p \<Rightarrow> if Some e = left_of s2 p then set_left p child s2
                          else set_right p child s2)"
  have run: "avl_erase (Some e) s = avl_rebalance (parent_of s e) s3"
    using assms unfolding avl_erase_def s3_def s2_def child_def by (auto simp: Let_def)
  have ch: "child = sole_child s e" by (auto simp: child_def sole_child_def)
  have f2: "left_of s2 a = left_of s a" "right_of s2 a = right_of s a" "height_of s2 a = height_of s a"
    "root_node s2 = root_node s" "parent_of s2 a = (if child = Some a then parent_of s e else parent_of s a)"
    for a
    by (auto simp: s2_def split: option.splits)
  have "spliced_out s s3 e"
    unfolding spliced_out_def ch [symmetric]
    by (cases "parent_of s e") (auto simp: s3_def f2)
  with run show ?thesis by blast
qed

lemma spliced_tree:
  assumes sp: "spliced_out s s1 e"
    and t: "is_tree s None (root_node s) (plug (Node l e r) c)"
    and d: "distinct (inorder (plug (Node l e r) c))"
    and lr: "l = Leaf \<or> r = Leaf"
    and t': "t' = (if l = Leaf then r else l)"
  shows "frame s s1 (set_tree (Node l e r)) (above c) (Some e) (root_ptr t')"
    "is_tree s1 (above c) (root_ptr t') t'" "heights_ok s1 t' = heights_ok s t'"
proof -
  from t have te: "is_tree s (above c) (Some e) (Node l e r)" by (simp add: is_tree_plug)
  then have pe: "parent_of s e = above c" and tl: "is_tree s (Some e) (left_of s e) l"
    and tr: "is_tree s (Some e) (right_of s e) r" by auto
  from d have de: "distinct (inorder (Node l e r))" by (simp add: distinct_plug)
  note gb = above_outside [OF d]
  have le: "left_of s e = root_ptr l" and re: "right_of s e = root_ptr r"
    using tl tr by (auto dest: is_tree_root_ptr)
  have sc: "sole_child s e = root_ptr t'"
    using lr le re t' by (cases l) (auto simp: sole_child_def)
  have tt: "is_tree s (Some e) (root_ptr t') t'"
    using tl tr le re t' by auto
  have sub: "set_tree t' \<subseteq> set_tree (Node l e r)" using t' by auto
  have rin: "x \<in> set_tree (Node l e r)" if "root_ptr t' = Some x" for x
    using that sub by (cases t') auto
  have sp1: "\<And>x. root_ptr t' = Some x \<Longrightarrow> parent_of s1 x = above c"
    and sp2: "\<And>a. above c \<noteq> Some a \<Longrightarrow> left_of s1 a = left_of s a \<and> right_of s1 a = right_of s a"
    and sp3: "\<And>a. root_ptr t' \<noteq> Some a \<Longrightarrow> parent_of s1 a = parent_of s a"
    and sp4: "\<And>a. height_of s1 a = height_of s a"
    using sp unfolding spliced_out_def sc pe by blast+
  have sp5: "case above c of
         None \<Rightarrow> root_node s1 = root_ptr t'
       | Some g \<Rightarrow> root_node s1 = root_node s \<and>
           (if left_of s g = Some e
            then left_of s1 g = root_ptr t' \<and> right_of s1 g = right_of s g
            else right_of s1 g = root_ptr t' \<and> left_of s1 g = left_of s g)"
    using sp unfolding spliced_out_def sc pe by blast
  have out: "parent_of s1 a = parent_of s a \<and> height_of s1 a = height_of s a \<and>
      (above c \<noteq> Some a \<longrightarrow> left_of s1 a = left_of s a \<and> right_of s1 a = right_of s a)"
    if "a \<notin> set_tree (Node l e r)" for a
  proof -
    have "root_ptr t' \<noteq> Some a" using that rin by auto
    then show ?thesis using sp2 sp3 sp4 by simp
  qed
  show "frame s s1 (set_tree (Node l e r)) (above c) (Some e) (root_ptr t')"
    unfolding frame_def using out sp5 by (auto split: option.splits)
  have dt: "distinct (inorder t')" using de t' by auto
  show "is_tree s1 (above c) (root_ptr t') t'"
  proof (rule is_tree_reparent [OF tt dt])
    fix a assume a: "a \<in> set_tree t'"
    then have "a \<in> set_tree (Node l e r)" using sub by auto
    with gb have "above c \<noteq> Some a" by auto
    with sp1 sp2 sp3 show "left_of s1 a = left_of s a \<and> right_of s1 a = right_of s a \<and>
      parent_of s1 a = (if root_ptr t' = Some a then above c else parent_of s a)" by auto
  qed
  show "heights_ok s1 t' = heights_ok s t'" by (rule heights_ok_frame) (simp add: sp4)
qed

text \<open>
  Claim C5. In a well-formed AVL tree in memory, let \<open>e\<close> be a node with at most one
  child. Then \<open>avl_erase\<close> is the splice followed by the rebalance walk from the former
  parent of \<open>e\<close>: the parent's slot that pointed to \<open>e\<close>, or the root pointer for a parent
  that is null, is rewritten to the sole child of \<open>e\<close> (to null, if there is none), and
  the parent link of that child to the former parent. The call returns, and in the
  state it returns the tree that hangs from the root pointer is a well-formed AVL tree
  in which \<open>e\<close> does not occur; its nodes are the others, in the order they had.
\<close>

theorem erase_leaf_or_single:
  assumes wf: "wf_tree s t" and inv: "avl_inv s t" and e: "e \<in> set_tree t"
    and one: "left_of s e = None \<or> right_of s e = None"
  shows "\<exists>s1. spliced_out s s1 e \<and> avl_erase (Some e) s = avl_rebalance (parent_of s e) s1 \<and>
           (\<exists>s' t'. avl_erase (Some e) s = Some s' \<and> wf_tree s' t' \<and> avl_inv s' t' \<and>
               e \<notin> set_tree t' \<and> inorder t' = removeAll e (inorder t))"
proof -
  from erase_splices [OF one] obtain s1 where
    sp: "spliced_out s s1 e" and run: "avl_erase (Some e) s = avl_rebalance (parent_of s e) s1"
    by blast
  from tree_decompose [OF e] obtain l r c where t: "t = plug (Node l e r) c" by blast
  from wf t have T: "is_tree s None (root_node s) (plug (Node l e r) c)"
    and D: "distinct (inorder (plug (Node l e r) c))" by (simp_all add: wf_tree_def)
  from T have te: "is_tree s (above c) (Some e) (Node l e r)" by (simp add: is_tree_plug)
  then have pe: "parent_of s e = above c" and tl: "is_tree s (Some e) (left_of s e) l"
    and tr: "is_tree s (Some e) (right_of s e) r" by auto
  have lr: "l = Leaf \<or> r = Leaf"
    using one tl tr by (cases l; cases r) auto
  define t' where "t' = (if l = Leaf then r else l)"
  note st = spliced_tree [OF sp T D lr t'_def]
  from inv t have "heights_ok s (plug (Node l e r) c)" "balanced (plug (Node l e r) c)"
    by (simp_all add: avl_inv_iff)
  from ctx_ok_of_inv [OF this] have he: "heights_ok s (Node l e r)" and be: "balanced (Node l e r)"
    and ok: "ctx_ok s (height (Node l e r)) c" by auto
  have sub: "set_tree t' \<subseteq> set_tree (Node l e r)" by (auto simp: t'_def)
  have dt: "distinct (inorder t')" using D by (auto simp: distinct_plug t'_def)
  note pf = plug_frame [OF T D st(1) st(2) sub dt]
  have h1: "heights_ok s1 t'" using he st(3) by (auto simp: t'_def)
  have b1: "balanced t'" using be by (auto simp: t'_def)
  have hh: "height t' \<le> height (Node l e r)" "height (Node l e r) \<le> height t' + 1"
    using lr by (auto simp: t'_def)
  have ok1: "ctx_ok s1 (height (Node l e r)) c" using ok pf(3) by simp
  from walk_up [OF pf(1) pf(2) h1 b1 hh ok1] obtain s' t2 where
    w: "avl_rebalance (above c) s1 = Some s'" and wf': "wf_tree s' t2" and inv': "avl_inv s' t2"
    and io: "inorder t2 = inorder (plug t' c)" by blast
  have el: "e \<notin> set (ctx_pre c)" "e \<notin> set (ctx_post c)" "e \<notin> set_tree l" "e \<notin> set_tree r"
    using D by (auto simp: distinct_plug crumb_nodes_set)
  have io2: "inorder t2 = removeAll e (inorder t)"
    using io el lr by (auto simp: t inorder_plug t'_def)
  have "e \<notin> set (inorder t2)" unfolding io2 by simp
  then have "e \<notin> set_tree t2" by simp
  with sp run w wf' inv' io2 pe show ?thesis by auto
qed

theorem erase_leaf_or_single_witness:
  "wf_tree two_nodes (Node (single 1) 2 Leaf) \<and> avl_inv two_nodes (Node (single 1) 2 Leaf) \<and>
   right_of two_nodes 2 = None \<and>
   (\<exists>s1. spliced_out two_nodes s1 2 \<and>
      avl_erase (Some 2) two_nodes = avl_rebalance (parent_of two_nodes 2) s1 \<and>
      (\<exists>s' t'. avl_erase (Some 2) two_nodes = Some s' \<and> wf_tree s' t' \<and> avl_inv s' t' \<and>
          2 \<notin> set_tree t' \<and> inorder t' = [1]))"
proof -
  have a: "wf_tree two_nodes (Node (single 1) 2 Leaf)" "avl_inv two_nodes (Node (single 1) 2 Leaf)"
    "2 \<in> set_tree (Node (single 1) 2 Leaf)"
    "left_of two_nodes 2 = None \<or> right_of two_nodes 2 = None"
    by (simp_all add: two_nodes_def wf_tree_def single_def left_of_def right_of_def parent_of_def
        height_of_def)
  have b: "right_of two_nodes 2 = None" by (simp add: two_nodes_def right_of_def)
  from erase_leaf_or_single [OF a] a b show ?thesis by (simp add: single_def)
qed

section \<open>The shape of the tree after one visit\<close>

lemma rotate_left_None: "right_of s x = None \<Longrightarrow> avl_rotate_left (Some x) s = None"
  by (simp add: avl_rotate_left_def)

lemma rotate_right_None: "left_of s x = None \<Longrightarrow> avl_rotate_right (Some x) s = None"
  by (simp add: avl_rotate_right_def)

text \<open>
  The shape of a subtree after the rotations of one visit, whatever the stored heights
  are: \<open>inner\<close> stands for the outcome of the comparison of the grandchildren's heights.
\<close>

lemma left_heavy_shape:
  assumes t: "is_tree s par (Some b) (Node (Node A c B) b r)"
    and d: "distinct (inorder (Node (Node A c B) b r))"
    and g: "\<forall>g. par = Some g \<longrightarrow> g \<notin> set_tree (Node (Node A c B) b r)"
    and run: "((if inner then avl_rotate_left (Some c) s else Some s) \<bind> avl_rotate_right (Some b)) = Some s'"
  shows "\<exists>t1. t1 \<noteq> Leaf \<and> is_tree s' par (root_ptr t1) t1 \<and>
           inorder t1 = inorder (Node (Node A c B) b r) \<and>
           frame s s' (set_tree (Node (Node A c B) b r)) par (Some b) (root_ptr t1) \<and>
           parent_of s' b = root_ptr t1"
proof -
  let ?T = "Node (Node A c B) b r"
  from t have tB: "is_tree s (Some c) (right_of s c) B"
    and tl: "is_tree s (Some b) (Some c) (Node A c B)" and lb: "left_of s b = Some c" by auto
  show ?thesis
  proof (cases inner)
    case True
    with run obtain s2 where run2: "avl_rotate_left (Some c) s = Some s2"
      and run3: "avl_rotate_right (Some b) s2 = Some s'"
      by (auto simp: bind_eq_Some_conv)
    have "B \<noteq> Leaf"
    proof
      assume "B = Leaf"
      with tB have "right_of s c = None" by simp
      with run2 show False by (simp add: rotate_left_None)
    qed
    then obtain B1 e B2 where B: "B = Node B1 e B2" by (cases B) auto
    have tl': "is_tree s (Some b) (Some c) (Node A c (Node B1 e B2))" using tl B by simp
    have dl: "distinct (inorder (Node A c (Node B1 e B2)))" using d B by auto
    have gl: "\<forall>g. Some b = Some g \<longrightarrow> g \<notin> set_tree (Node A c (Node B1 e B2))" using d B by auto
    from rot_left_shape [OF tl' dl gl] run2 have
      t2: "is_tree s2 (Some b) (Some e) (Node (Node A c B1) e B2)"
      and f2: "frame s s2 (set_tree (Node A c (Node B1 e B2))) (Some b) (Some c) (Some e)" by auto
    have f2': "frame s s2 (set_tree (Node A c B)) (Some b) (left_of s b) (Some e)"
      using f2 lb B by simp
    note rb = rebuild_left [OF t d f2' t2]
    have d3: "distinct (inorder (Node (Node (Node A c B1) e B2) b r))" using d B by auto
    have g3: "\<forall>g. par = Some g \<longrightarrow> g \<notin> set_tree (Node (Node (Node A c B1) e B2) b r)"
      using g B by auto
    from rot_right_shape [OF rb(1) d3 g3] run3 have
      t3: "is_tree s' par (Some e) (Node (Node A c B1) e (Node B2 b r))"
      and f3: "frame s2 s' (set_tree (Node (Node (Node A c B1) e B2) b r)) par (Some b) (Some e)"
      and p3: "parent_of s' b = Some e" by auto
    have seteq: "set_tree (Node (Node (Node A c B1) e B2) b r) = set_tree ?T" using B by auto
    have "frame s s' (set_tree ?T) par (Some b) (Some e)"
      using frame_trans [OF f2 f3 [unfolded seteq]] g B by auto
    with t3 p3 B show ?thesis
      by (intro exI [of _ "Node (Node A c B1) e (Node B2 b r)"]) simp
  next
    case False
    with run have run3: "avl_rotate_right (Some b) s = Some s'" by simp
    from rot_right_shape [OF t d g] run3 show ?thesis
      by (intro exI [of _ "Node A c (Node B b r)"]) auto
  qed
qed

lemma right_heavy_shape:
  assumes t: "is_tree s par (Some b) (Node l b (Node B c C))"
    and d: "distinct (inorder (Node l b (Node B c C)))"
    and g: "\<forall>g. par = Some g \<longrightarrow> g \<notin> set_tree (Node l b (Node B c C))"
    and run: "((if inner then avl_rotate_right (Some c) s else Some s) \<bind> avl_rotate_left (Some b)) = Some s'"
  shows "\<exists>t1. t1 \<noteq> Leaf \<and> is_tree s' par (root_ptr t1) t1 \<and>
           inorder t1 = inorder (Node l b (Node B c C)) \<and>
           frame s s' (set_tree (Node l b (Node B c C))) par (Some b) (root_ptr t1) \<and>
           parent_of s' b = root_ptr t1"
proof -
  let ?T = "Node l b (Node B c C)"
  from t have tB: "is_tree s (Some c) (left_of s c) B"
    and tr: "is_tree s (Some b) (Some c) (Node B c C)" and rb: "right_of s b = Some c" by auto
  show ?thesis
  proof (cases inner)
    case True
    with run obtain s2 where run2: "avl_rotate_right (Some c) s = Some s2"
      and run3: "avl_rotate_left (Some b) s2 = Some s'"
      by (auto simp: bind_eq_Some_conv)
    have "B \<noteq> Leaf"
    proof
      assume "B = Leaf"
      with tB have "left_of s c = None" by simp
      with run2 show False by (simp add: rotate_right_None)
    qed
    then obtain B1 e B2 where B: "B = Node B1 e B2" by (cases B) auto
    have tr': "is_tree s (Some b) (Some c) (Node (Node B1 e B2) c C)" using tr B by simp
    have dl: "distinct (inorder (Node (Node B1 e B2) c C))" using d B by auto
    have gl: "\<forall>g. Some b = Some g \<longrightarrow> g \<notin> set_tree (Node (Node B1 e B2) c C)" using d B by auto
    from rot_right_shape [OF tr' dl gl] run2 have
      t2: "is_tree s2 (Some b) (Some e) (Node B1 e (Node B2 c C))"
      and f2: "frame s s2 (set_tree (Node (Node B1 e B2) c C)) (Some b) (Some c) (Some e)" by auto
    have f2': "frame s s2 (set_tree (Node B c C)) (Some b) (right_of s b) (Some e)"
      using f2 rb B by simp
    have "Node B c C \<noteq> Leaf" by simp
    note rbd = rebuild_right [OF t d f2' t2 this]
    have d3: "distinct (inorder (Node l b (Node B1 e (Node B2 c C))))" using d B by auto
    have g3: "\<forall>g. par = Some g \<longrightarrow> g \<notin> set_tree (Node l b (Node B1 e (Node B2 c C)))"
      using g B by auto
    from rot_left_shape [OF rbd(1) d3 g3] run3 have
      t3: "is_tree s' par (Some e) (Node (Node l b B1) e (Node B2 c C))"
      and f3: "frame s2 s' (set_tree (Node l b (Node B1 e (Node B2 c C)))) par (Some b) (Some e)"
      and p3: "parent_of s' b = Some e" by auto
    have seteq: "set_tree (Node l b (Node B1 e (Node B2 c C))) = set_tree ?T" using B by auto
    have "frame s s' (set_tree ?T) par (Some b) (Some e)"
      using frame_trans [OF f2 f3 [unfolded seteq]] g B by auto
    with t3 p3 B show ?thesis
      by (intro exI [of _ "Node (Node l b B1) e (Node B2 c C)"]) simp
  next
    case False
    with run have run3: "avl_rotate_left (Some b) s = Some s'" by simp
    from rot_left_shape [OF t d g] run3 show ?thesis
      by (intro exI [of _ "Node (Node l b B) c C"]) auto
  qed
qed

lemma body_shape:
  assumes t: "is_tree s par (Some b) (Node l b r)" and d: "distinct (inorder (Node l b r))"
    and g: "\<forall>g. par = Some g \<longrightarrow> g \<notin> set_tree (Node l b r)"
    and run: "avl_rebalance_body b s = Some s'"
  shows "\<exists>t1. t1 \<noteq> Leaf \<and> is_tree s' par (root_ptr t1) t1 \<and> inorder t1 = inorder (Node l b r) \<and>
           frame s s' (set_tree (Node l b r)) par (Some b) (root_ptr t1) \<and>
           (root_ptr t1 = Some b \<and> parent_of s' b = par \<or> parent_of s' b = root_ptr t1)"
proof -
  from t have pn: "parent_of s b = par" and tl: "is_tree s (Some b) (left_of s b) l"
    and tr: "is_tree s (Some b) (right_of s b) r" by auto
  define s1 where "s1 = set_height b (rot_hd s (left_of s b) (right_of s b)) s"
  define c1 where "c1 \<longleftrightarrow> 1 <s avl_height_fn s1 (left_of s b) - avl_height_fn s1 (right_of s b)"
  define c2 where "c2 \<longleftrightarrow> avl_height_fn s1 (left_of s b) - avl_height_fn s1 (right_of s b) <s - 1"
  have unf: "avl_rebalance_body b s =
     (if c1 then
          (case left_of s b of None \<Rightarrow> None
           | Some x \<Rightarrow>
               (if avl_height_fn s1 (left_of s x) <s avl_height_fn s1 (right_of s x)
                then avl_rotate_left (Some x) s1 else Some s1) \<bind> avl_rotate_right (Some b))
        else if c2 then
          (case right_of s b of None \<Rightarrow> None
           | Some x \<Rightarrow>
               (if avl_height_fn s1 (right_of s x) <s avl_height_fn s1 (left_of s x)
                then avl_rotate_right (Some x) s1 else Some s1) \<bind> avl_rotate_left (Some b))
        else Some s1)"
    unfolding rebalance_body_unfold Let_def s1_def [symmetric] c1_def c2_def by (rule refl)
  have t1: "is_tree s1 par (Some b) (Node l b r)" using t by (simp add: s1_def)
  have f1: "frame s s1 (set_tree (Node l b r)) par (Some b) (Some b)"
    unfolding s1_def by (rule frame_set_height) simp
  consider (lh) c1 | (rh) "\<not> c1" c2 | (ok) "\<not> c1" "\<not> c2" by blast
  then show ?thesis
  proof cases
    case lh
    with run unf obtain c where lc: "left_of s b = Some c"
      and run': "((if avl_height_fn s1 (left_of s c) <s avl_height_fn s1 (right_of s c)
                then avl_rotate_left (Some c) s1 else Some s1) \<bind> avl_rotate_right (Some b)) = Some s'"
      by (cases "left_of s b") auto
    from tl lc obtain A B where l: "l = Node A c B" by (auto dest: is_tree_Some)
    from left_heavy_shape [OF t1 [unfolded l] d [unfolded l] g [unfolded l] run']
    obtain t' where t': "t' \<noteq> Leaf" "is_tree s' par (root_ptr t') t'" "inorder t' = inorder (Node l b r)"
      "frame s1 s' (set_tree (Node l b r)) par (Some b) (root_ptr t')" "parent_of s' b = root_ptr t'"
      unfolding l by blast
    have "frame s s' (set_tree (Node l b r)) par (Some b) (root_ptr t')"
      using t'(4) unfolding s1_def by (rule frame_set_height_pre) simp
    with t' show ?thesis by blast
  next
    case rh
    with run unf obtain c where rc: "right_of s b = Some c"
      and run': "((if avl_height_fn s1 (right_of s c) <s avl_height_fn s1 (left_of s c)
                then avl_rotate_right (Some c) s1 else Some s1) \<bind> avl_rotate_left (Some b)) = Some s'"
      by (cases "right_of s b") auto
    from tr rc obtain B C where r: "r = Node B c C" by (auto dest: is_tree_Some)
    from right_heavy_shape [OF t1 [unfolded r] d [unfolded r] g [unfolded r] run']
    obtain t' where t': "t' \<noteq> Leaf" "is_tree s' par (root_ptr t') t'" "inorder t' = inorder (Node l b r)"
      "frame s1 s' (set_tree (Node l b r)) par (Some b) (root_ptr t')" "parent_of s' b = root_ptr t'"
      unfolding r by blast
    have "frame s s' (set_tree (Node l b r)) par (Some b) (root_ptr t')"
      using t'(4) unfolding s1_def by (rule frame_set_height_pre) simp
    with t' show ?thesis by blast
  next
    case ok
    with run unf have "s' = s1" by simp
    moreover have "parent_of s1 b = par" using pn by (simp add: s1_def)
    ultimately show ?thesis using t1 f1
      by (intro exI [of _ "Node l b r"]) simp
  qed
qed

section \<open>The nodes that the walk visits\<close>

lemma walk_returns: "walk n s vs s' \<Longrightarrow> avl_rebalance n s = Some s'"
  by (induction rule: walk.induct) (simp_all add: avl_rebalance.simps)

inductive_cases walk_NoneE: "walk None s vs s'"

lemma returns_walk: "avl_rebalance n s = Some s' \<Longrightarrow> \<exists>vs. walk n s vs s'"
proof (rule avl_rebalance.raw_induct [where P = "\<lambda>n s s'. \<exists>vs. walk n s vs s'"])
  fix f :: "ptr \<Rightarrow> avl_state \<Rightarrow> avl_state option" and n s s'
  assume ih: "\<And>n s s'. f n s = Some s' \<Longrightarrow> \<exists>vs. walk n s vs s'"
    and run: "(case n of None \<Rightarrow> Some s
               | Some a \<Rightarrow> (case avl_rebalance_body a s of None \<Rightarrow> None
                            | Some s1 \<Rightarrow> f (parent_of s1 a) s1)) = Some s'"
  show "\<exists>vs. walk n s vs s'"
  proof (cases n)
    case None
    with run show ?thesis by (auto intro: walk_done)
  next
    case (Some a)
    with run obtain s1 where b: "avl_rebalance_body a s = Some s1"
      and r: "f (parent_of s1 a) s1 = Some s'" by (auto split: option.splits)
    from ih [OF r] obtain vs where "walk (parent_of s1 a) s1 vs s'" by blast
    with b Some show ?thesis by (auto intro: walk_step)
  qed
qed

lemma path_up_plug:
  "distinct (inorder (plug t c)) \<Longrightarrow> x \<in> set_tree t \<Longrightarrow>
   path_up (plug t c) x = path_up t x @ map crumb_node c"
proof (induction t c rule: plug.induct)
  case (1 t)
  then show ?case by simp
next
  case (2 t b sib c)
  from 2(2) have "distinct (inorder (Node t b sib))" by (simp add: distinct_plug)
  with 2(3) have "path_up (Node t b sib) x = path_up t x @ [b]" by auto
  with 2 show ?case by simp
next
  case (3 t b sib c)
  from 3(2) have "distinct (inorder (Node sib b t))" by (simp add: distinct_plug)
  with 3(3) have "path_up (Node sib b t) x = path_up t x @ [b]" by auto
  with 3 show ?case by simp
qed

lemma above_Some: "above c = Some a \<Longrightarrow> \<exists>k c'. c = k # c' \<and> crumb_node k = a"
  by (cases c rule: above.cases) auto

lemma plug_crumb: "\<exists>l r. plug t (k # c) = plug (Node l (crumb_node k) r) c"
  by (cases k) auto

lemma walk_visits:
  assumes "walk p s vs s'"
  shows "p = above c \<Longrightarrow> is_tree s None (root_node s) (plug t c) \<Longrightarrow>
         distinct (inorder (plug t c)) \<Longrightarrow>
         subseq (map crumb_node c) vs \<and> (c \<noteq> [] \<longrightarrow> root_node s' = Some (last vs)) \<and>
         (\<exists>t'. is_tree s' None (root_node s') t' \<and> inorder t' = inorder (plug t c))"
  using assms
proof (induction arbitrary: t c rule: walk.induct)
  case (walk_done s)
  then have "c = []" by (cases c rule: above.cases) auto
  with walk_done show ?case by auto
next
  case (walk_step a s s1 vs s')
  from walk_step.prems(1) obtain k c' where c: "c = k # c'" and k: "crumb_node k = a"
    using above_Some [of c a] by auto
  obtain l r where pl: "plug t c = plug (Node l a r) c'"
    using plug_crumb [of t k c'] c k by auto
  have T: "is_tree s None (root_node s) (plug (Node l a r) c')"
    and D: "distinct (inorder (plug (Node l a r) c'))"
    using walk_step.prems(2,3) pl by simp_all
  from T have ta: "is_tree s (above c') (Some a) (Node l a r)" by (simp add: is_tree_plug)
  from D have da: "distinct (inorder (Node l a r))" by (simp add: distinct_plug)
  note ga = above_outside [OF D]
  from body_shape [OF ta da ga walk_step.hyps(1)] obtain t1 where
    n1: "t1 \<noteq> Leaf" and t1: "is_tree s1 (above c') (root_ptr t1) t1"
    and i1: "inorder t1 = inorder (Node l a r)"
    and f1: "frame s s1 (set_tree (Node l a r)) (above c') (Some a) (root_ptr t1)"
    and p1: "root_ptr t1 = Some a \<and> parent_of s1 a = above c' \<or> parent_of s1 a = root_ptr t1"
    by blast
  have sub: "set_tree t1 \<subseteq> set_tree (Node l a r)"
    using arg_cong [OF i1, of set] by simp
  have d1: "distinct (inorder t1)" using da i1 by simp
  note pf = plug_frame [OF T D f1 t1 sub d1]
  have io: "inorder (plug t1 c') = inorder (plug t c)" by (simp add: pl inorder_plug i1)
  from p1 show ?case
  proof
    assume a: "root_ptr t1 = Some a \<and> parent_of s1 a = above c'"
    from walk_step.IH [OF _ pf(1) pf(2)] a have
      ih: "subseq (map crumb_node c') vs" "c' \<noteq> [] \<longrightarrow> root_node s' = Some (last vs)"
      "\<exists>t'. is_tree s' None (root_node s') t' \<and> inorder t' = inorder (plug t1 c')" by auto
    have "root_node s' = Some (last (a # vs))"
    proof (cases c')
      case Nil
      with a walk_step.hyps(2) have "vs = []" "s' = s1" by (auto elim: walk_NoneE)
      moreover from pf(1) Nil have "root_node s1 = root_ptr t1"
        by (auto dest: is_tree_root_ptr)
      ultimately show ?thesis using a by simp
    next
      case (Cons k' c'')
      with ih(1) have "vs \<noteq> []" by auto
      with ih(2) Cons show ?thesis by simp
    qed
    with ih c k io show ?thesis by auto
  next
    assume b: "parent_of s1 a = root_ptr t1"
    from n1 obtain L x R where t1': "t1 = Node L x R" by (cases t1) auto
    have pl1: "plug L (In_left x R # c') = plug t1 c'" by (simp add: t1')
    have "parent_of s1 a = above (In_left x R # c')" using b t1' by simp
    from walk_step.IH [OF this pf(1) [folded pl1] pf(2) [folded pl1]] have
      ih: "subseq (x # map crumb_node c') vs" "root_node s' = Some (last vs)"
      "\<exists>t'. is_tree s' None (root_node s') t' \<and> inorder t' = inorder (plug t1 c')"
      by (auto simp: t1')
    from ih(1) have "vs \<noteq> []" by auto
    moreover from ih(1) have "subseq (map crumb_node c') vs" by (rule subseq_Cons')
    ultimately show ?thesis using ih c k io by auto
  qed
qed

lemma step_spec:
  assumes "heights_in_range s"
  shows "avl_rebalance_body n s = rebalance_step_spec n s"
proof -
  define s1 where "s1 = set_height n (rot_hd s (left_of s n) (right_of s n)) s"
  have r0: "0 \<le> sint (avl_height_fn s p) \<and> sint (avl_height_fn s p) < 127" for p
    using assms by (cases p) (auto simp: avl_height_fn_def heights_in_range_def)
  have "sint (rot_hd s p q) = max (sint (avl_height_fn s p)) (sint (avl_height_fn s q)) + 1" for p q
    using r0 [of p] r0 [of q] by (simp add: rot_hd_def sint8_succ sint_max_int8)
  then have rh: "0 \<le> sint (rot_hd s p q) \<and> sint (rot_hd s p q) \<le> 127" for p q
    using r0 [of p] r0 [of q] by (auto simp: max_def)
  have r1: "0 \<le> sint (avl_height_fn s1 p) \<and> sint (avl_height_fn s1 p) \<le> 127" for p
  proof (cases p)
    case None
    then show ?thesis by (simp add: avl_height_fn_def)
  next
    case (Some a)
    then show ?thesis
      using rh [of "left_of s n" "right_of s n"] r0 [of "Some a"]
      by (cases "a = n") (auto simp: avl_height_fn_def s1_def)
  qed
  have d: "sint (avl_height_fn s1 p - avl_height_fn s1 q)
      = sint (avl_height_fn s1 p) - sint (avl_height_fn s1 q)" for p q
    using r1 [of p] r1 [of q] by (simp add: sint8_sub)
  have c1: "1 <s avl_height_fn s1 (left_of s1 n) - avl_height_fn s1 (right_of s1 n)
      \<longleftrightarrow> 1 < balance_of s1 n"
    and c2: "avl_height_fn s1 (left_of s1 n) - avl_height_fn s1 (right_of s1 n) <s - 1
      \<longleftrightarrow> balance_of s1 n < - 1"
    by (simp_all add: word_sless_alt d balance_of_def)
  have c3: "avl_height_fn s1 (left_of s1 x) <s avl_height_fn s1 (right_of s1 x)
      \<longleftrightarrow> balance_of s1 x < 0"
    and c4: "avl_height_fn s1 (right_of s1 x) <s avl_height_fn s1 (left_of s1 x)
      \<longleftrightarrow> 0 < balance_of s1 x" for x
    by (auto simp: word_sless_alt balance_of_def)
  show ?thesis
    unfolding avl_rebalance_body_def rebalance_step_spec_def update_height_Some
      s1_def [symmetric] Option.bind.simps Let_def c1 c2 c3 c4
    by (auto split: option.splits Option.bind_splits)
qed

lemma walk_noop:
  "is_tree s None (root_node s) (plug t c) \<Longrightarrow> distinct (inorder (plug t c)) \<Longrightarrow>
   heights_ok s (plug t c) \<Longrightarrow> balanced (plug t c) \<Longrightarrow>
   walk (above c) s (map crumb_node c) s"
proof (induction c arbitrary: t)
  case Nil
  show ?case by (simp add: walk_done)
next
  case (Cons k c)
  obtain l r where pl: "plug t (k # c) = plug (Node l (crumb_node k) r) c"
    using plug_crumb by blast
  let ?a = "crumb_node k"
  have T: "is_tree s None (root_node s) (plug (Node l ?a r) c)"
    and D: "distinct (inorder (plug (Node l ?a r) c))"
    and H: "heights_ok s (plug (Node l ?a r) c)" and B: "balanced (plug (Node l ?a r) c)"
    using Cons.prems pl by simp_all
  from T have ta: "is_tree s (above c) (Some ?a) (Node l ?a r)" by (simp add: is_tree_plug)
  from D have da: "distinct (inorder (Node l ?a r))" by (simp add: distinct_plug)
  from ctx_ok_of_inv [OF H B] have ha: "heights_ok s (Node l ?a r)" and ba: "balanced (Node l ?a r)"
    by auto
  from ba have ok: "height l \<le> height r + 1" "height r \<le> height l + 1" by auto
  have body: "avl_rebalance_body ?a s = Some s" by (rule body_noop [OF ta da ha ok])
  have pa: "parent_of s ?a = above c" using ta by simp
  have "walk (above c) s (map crumb_node c) s" by (rule Cons.IH [OF T D H B])
  with body pa have "walk (Some ?a) s (?a # map crumb_node c) s"
    by (intro walk_step [of ?a s s]) simp_all
  moreover have "above (k # c) = Some ?a" by (cases k) auto
  ultimately show ?case by simp
qed

section \<open>The walk from a subtree that has changed its height\<close>

lemma visit_spec_bal_node: "visit_spec (Node l b r) = bal_node l b r"
  by (auto simp: visit_spec_def bal_node_def tree_balance_def rot_left_root_def rot_right_root_def
      simp del: eq_height_0 eq_0_height split: tree.splits)

lemma step_walk:
  assumes t: "is_tree s par (Some b) (Node l b r)" and d: "distinct (inorder (Node l b r))"
    and g: "\<forall>g. par = Some g \<longrightarrow> g \<notin> set_tree (Node l b r)"
    and hl: "heights_ok s l" and hr: "heights_ok s r"
    and bl: "balanced l" and br: "balanced r"
    and c2: "height l \<le> height r + 2" "height r \<le> height l + 2"
    and bound: "height (Node l b r) \<le> 127"
  shows "\<exists>s'. (\<forall>vs s2. walk par s' vs s2 \<longrightarrow>
                 walk (Some b) s (b # promoted b (bal_node l b r) @ vs) s2) \<and>
           is_tree s' par (root_ptr (bal_node l b r)) (bal_node l b r) \<and>
           heights_ok s' (bal_node l b r) \<and>
           frame s s' (set_tree (Node l b r)) par (Some b) (root_ptr (bal_node l b r))"
proof -
  from body_local [OF t d g hl hr bound] obtain s' where
    body: "avl_rebalance_body b s = Some s'"
    and t': "is_tree s' par (root_ptr (bal_node l b r)) (bal_node l b r)"
    and h': "heights_ok s' (bal_node l b r)"
    and f': "frame s s' (set_tree (Node l b r)) par (Some b) (root_ptr (bal_node l b r))"
    and p': "parent_of s' b = (if root_ptr (bal_node l b r) = Some b then par else root_ptr (bal_node l b r))"
    by blast
  obtain L c R where T: "bal_node l b r = Node L c R"
    using bal_node_not_Leaf [of l b r] by (cases "bal_node l b r") auto
  have "walk (Some b) s (b # promoted b (bal_node l b r) @ vs) s2" if w: "walk par s' vs s2" for vs s2
  proof (cases "c = b")
    case True
    with p' T have "parent_of s' b = par" by simp
    with body w have "walk (Some b) s (b # vs) s2" by (auto intro: walk_step)
    with True T show ?thesis by (simp add: promoted_def)
  next
    case False
    with p' T have pb: "parent_of s' b = Some c" by simp
    from t' T have tc: "is_tree s' par (Some c) (Node L c R)" by simp
    have dc: "distinct (inorder (Node L c R))"
      using d inorder_bal_node [of l b r] T by simp
    have hc: "heights_ok s' (Node L c R)" using h' T by simp
    have "balanced (Node L c R)" using bal_node_balanced [OF bl br c2, of b] T by simp
    then have ok: "height L \<le> height R + 1" "height R \<le> height L + 1" by auto
    have bc: "avl_rebalance_body c s' = Some s'" by (rule body_noop [OF tc dc hc ok])
    have "parent_of s' c = par" using tc by simp
    with bc w have "walk (Some c) s' (c # vs) s2" by (auto intro: walk_step)
    with body pb have "walk (Some b) s (b # c # vs) s2" by (auto intro: walk_step)
    with False T show ?thesis by (simp add: promoted_def)
  qed
  with t' h' f' show ?thesis by blast
qed

lemma height_plug_mono: "height t \<le> height t' \<Longrightarrow> height (plug t c) \<le> height (plug t' c)"
  by (induction t c arbitrary: t' rule: plug.induct) auto

lemma height_plug_ge: "height t \<le> height (plug t c)"
proof (induction t c rule: plug.induct)
  case (1 t)
  show ?case by simp
next
  case (2 t b sib c)
  have "height t \<le> height (Node t b sib)" by simp
  with 2 show ?case by (simp del: height_tree.simps)
next
  case (3 t b sib c)
  have "height t \<le> height (Node sib b t)" by simp
  with 3 show ?case by (simp del: height_tree.simps)
qed

lemma inorder_rebalanced: "inorder (rebalanced t c) = inorder (plug t c)"
  by (induction t c rule: rebalanced.induct)
     (simp_all add: visit_spec_bal_node inorder_plug inorder_bal_node)

lemma visited_path: "subseq (map crumb_node c) (visited t c)"
proof (induction t c rule: visited.induct)
  case (1 t)
  show ?case by simp
next
  case (2 t b sib c)
  then show ?case by (auto intro: subseq_Cons2 list_emb_append2 simp del: subseq_Cons2_iff)
next
  case (3 t b sib c)
  then show ?case by (auto intro: subseq_Cons2 list_emb_append2 simp del: subseq_Cons2_iff)
qed

text \<open>
  The walk that is started in such a state returns: it visits the nodes that the walk
  on shapes visits and leaves the tree that the walk on shapes leaves, well-formed,
  balanced and with correct stored heights.
\<close>

lemma walk_fix:
  assumes "is_tree s None (root_node s) (plug t c)" "distinct (inorder (plug t c))"
    and "height (plug t c) \<le> 127"
    and "heights_ok s t" "balanced t" "height t \<le> h + 1" "h \<le> height t + 1" "ctx_ok s h c"
  shows "\<exists>s'. walk (above c) s (visited t c) s' \<and> wf_tree s' (rebalanced t c) \<and>
           avl_inv s' (rebalanced t c)"
  using assms
proof (induction c arbitrary: s t h)
  case Nil
  then show ?case
    by (auto simp: wf_tree_def avl_inv_iff intro!: exI [of _ s] walk_done)
next
  case (Cons k c)
  obtain b sib where k: "k = In_left b sib \<or> k = In_right b sib" by (cases k) auto
  define l where "l = (if k = In_left b sib then t else sib)"
  define r where "r = (if k = In_left b sib then sib else t)"
  have pl: "plug t (k # c) = plug (Node l b r) c" using k by (auto simp: l_def r_def)
  have ab: "above (k # c) = Some b" using k by auto
  have rb: "rebalanced t (k # c) = rebalanced (bal_node l b r) c"
    using k by (auto simp: l_def r_def visit_spec_bal_node)
  have vi: "visited t (k # c) = b # promoted b (bal_node l b r) @ visited (bal_node l b r) c"
    using k by (auto simp: l_def r_def visit_spec_bal_node)
  have ok: "heights_ok s sib" "balanced sib" "h \<le> height sib + 1" "height sib \<le> h + 1"
    "ctx_ok s (max h (height sib) + 1) c"
    using Cons.prems(8) k by auto
  have hl: "heights_ok s l" and hr: "heights_ok s r" and bl: "balanced l" and br: "balanced r"
    using ok Cons.prems(4,5) by (auto simp: l_def r_def)
  have c2: "height l \<le> height r + 2" "height r \<le> height l + 2"
    using ok Cons.prems(6,7) by (auto simp: l_def r_def)
  have T: "is_tree s None (root_node s) (plug (Node l b r) c)"
    and D: "distinct (inorder (plug (Node l b r) c))"
    and B: "height (plug (Node l b r) c) \<le> 127"
    using Cons.prems(1,2,3) pl by simp_all
  have bound: "height (Node l b r) \<le> 127"
    using height_plug_ge [of "Node l b r" c] B by linarith
  from T have tb: "is_tree s (above c) (Some b) (Node l b r)" by (simp add: is_tree_plug)
  from D have db: "distinct (inorder (Node l b r))" by (simp add: distinct_plug)
  note gb = above_outside [OF D]
  from step_walk [OF tb db gb hl hr bl br c2 bound] obtain s1 where
    w: "\<And>vs s2. walk (above c) s1 vs s2 \<Longrightarrow>
          walk (Some b) s (b # promoted b (bal_node l b r) @ vs) s2"
    and t1: "is_tree s1 (above c) (root_ptr (bal_node l b r)) (bal_node l b r)"
    and h1: "heights_ok s1 (bal_node l b r)"
    and f1: "frame s s1 (set_tree (Node l b r)) (above c) (Some b) (root_ptr (bal_node l b r))"
    by blast
  have sub: "set_tree (bal_node l b r) \<subseteq> set_tree (Node l b r)"
    by (simp add: set_tree_bal_node)
  have d1: "distinct (inorder (bal_node l b r))" using db by (simp add: inorder_bal_node)
  note pf = plug_frame [OF T D f1 t1 sub d1]
  have b1: "balanced (bal_node l b r)" by (rule bal_node_balanced [OF bl br c2])
  note hb = height_bal_node [OF bl br c2, of b]
  have le: "height (bal_node l b r) \<le> height (Node l b r)" using hb by linarith
  have B1: "height (plug (bal_node l b r) c) \<le> 127"
    using height_plug_mono [OF le, of c] B by linarith
  have up: "height (bal_node l b r) \<le> (max h (height sib) + 1) + 1"
    using le Cons.prems(6) by (auto simp: l_def r_def split: if_splits)
  have lo: "max h (height sib) + 1 \<le> height (bal_node l b r) + 1"
    using hb ok(3,4) Cons.prems(6,7)
    by (auto simp: l_def r_def split: if_splits)
  have ok1: "ctx_ok s1 (max h (height sib) + 1) c" using ok(5) pf(3) by simp
  from Cons.IH [OF pf(1) pf(2) B1 h1 b1 up lo ok1] obtain s' where
    "walk (above c) s1 (visited (bal_node l b r) c) s'" "wf_tree s' (rebalanced (bal_node l b r) c)"
    "avl_inv s' (rebalanced (bal_node l b r) c)" by blast
  with w [of "visited (bal_node l b r) c" s'] show ?case
    unfolding ab rb vi by blast
qed

lemma height_plug_succ:
  "height t' \<le> height t + 1 \<Longrightarrow> height (plug t' c) \<le> height (plug t c) + 1"
proof (induction t c arbitrary: t' rule: plug.induct)
  case (1 t)
  then show ?case by simp
next
  case (2 t b sib c)
  from 2(2) have "height (Node t' b sib) \<le> height (Node t b sib) + 1" by auto
  from 2(1) [OF this] show ?case by simp
next
  case (3 t b sib c)
  from 3(2) have "height (Node sib b t') \<le> height (Node sib b t) + 1" by auto
  from 3(1) [OF this] show ?case by simp
qed

text \<open>Linking a new leaf into the free slot at the lower end of a path.\<close>

lemma link_leaf:
  assumes T: "is_tree s None (root_node s) (plug Leaf c)"
    and D: "distinct (inorder (plug Leaf c))" and x: "x \<notin> set_tree (plug Leaf c)"
  shows "\<exists>s1. avl_link_node (Some x) (above c) (hole_left c) s = Some s1 \<and>
           is_tree s1 None (root_node s1) (plug (single x) c) \<and>
           heights_ok s1 (single x) \<and>
           (\<forall>a \<in> crumb_nodes c. height_of s1 a = height_of s a)"
proof -
  define s0 where
    "s0 = set_parent x (above c) (set_height x 1 (set_parent x None (set_left x None (set_right x None s))))"
  define s1 where "s1 = (case above c of None \<Rightarrow> set_root (Some x) s0
      | Some p \<Rightarrow> if hole_left c then set_left p (Some x) s0 else set_right p (Some x) s0)"
  have run: "avl_link_node (Some x) (above c) (hole_left c) s = Some s1"
    by (cases "above c") (simp_all add: avl_link_node_def avl_init_node_def s1_def s0_def Let_def)
  have f0: "parent_of s0 a = (if a = x then above c else parent_of s a)"
    "left_of s0 a = (if a = x then None else left_of s a)"
    "right_of s0 a = (if a = x then None else right_of s a)"
    "height_of s0 a = (if a = x then 1 else height_of s a)" "root_node s0 = root_node s" for a
    by (simp_all add: s0_def)
  from T have c: "is_ctx s None c" by (simp add: is_tree_plug)
  from D have dc: "distinct (ctx_pre c @ ctx_post c)" by (simp add: distinct_plug)
  from x have xc: "x \<notin> crumb_nodes c" by (simp add: set_tree_plug)
  have px: "parent_of s1 x = above c" "left_of s1 x = None" "right_of s1 x = None"
    "height_of s1 x = 1"
    using xc by (cases c rule: above.cases; simp add: s1_def f0)+
  have hx: "heights_ok s1 (single x)" using px by (simp add: single_def)
  have tx: "is_tree s1 (above c) (Some x) (single x)" using px by (simp add: single_def)
  have "is_ctx s1 (Some x) c \<and> (\<forall>a \<in> crumb_nodes c. height_of s1 a = height_of s a)"
  proof (cases c)
    case Nil
    then show ?thesis by (simp add: s1_def)
  next
    case (Cons k c')
    obtain b sib where k: "k = In_left b sib \<or> k = In_right b sib" by (cases k) auto
    have bx: "b \<noteq> x" and sx: "x \<notin> set_tree sib" and cx: "x \<notin> crumb_nodes c'"
      using xc Cons k by auto
    have bsib: "b \<notin> set_tree sib" and bc: "b \<notin> crumb_nodes c'"
      using dc Cons k by (auto simp: crumb_nodes_set)
    have out: "parent_of s1 a = parent_of s a \<and> left_of s1 a = left_of s a \<and>
        right_of s1 a = right_of s a \<and> height_of s1 a = height_of s a"
      if "a \<noteq> x" "a \<noteq> b" for a
      using that Cons k by (auto simp: s1_def f0)
    have pb: "parent_of s1 b = parent_of s b" "height_of s1 b = height_of s b"
      and rt: "root_node s1 = root_node s"
      using bx Cons k by (auto simp: s1_def f0)
    have outc: "parent_of s1 a = parent_of s a \<and> left_of s1 a = left_of s a \<and>
        right_of s1 a = right_of s a \<and> height_of s1 a = height_of s a"
      if "a \<in> crumb_nodes c'" for a
      using that cx bc by (intro out) auto
    have outs: "parent_of s1 a = parent_of s a \<and> left_of s1 a = left_of s a \<and>
        right_of s1 a = right_of s a \<and> height_of s1 a = height_of s a"
      if "a \<in> set_tree sib" for a
      using that sx bsib by (intro out) auto
    have c': "is_ctx s (Some b) c'" using c Cons k by auto
    have c'': "is_ctx s1 (Some b) c'"
      by (intro is_ctx_same [OF c' rt]) (simp add: outc)
    have hts: "\<forall>a \<in> crumb_nodes c. height_of s1 a = height_of s a"
      using Cons k pb outc outs by auto
    from k show ?thesis
    proof
      assume kl: "k = In_left b sib"
      with c Cons have tp: "parent_of s b = above c'"
        and ts: "is_tree s (Some b) (right_of s b) sib" by auto
      have "left_of s1 b = Some x" "right_of s1 b = right_of s b"
        using bx Cons kl by (simp_all add: s1_def f0)
      moreover have "is_tree s1 (Some b) (right_of s b) sib"
        by (intro is_tree_frame [OF ts]) (simp add: outs)
      ultimately show ?thesis using Cons kl c'' pb tp hts by simp
    next
      assume kr: "k = In_right b sib"
      with c Cons have tp: "parent_of s b = above c'"
        and ts: "is_tree s (Some b) (left_of s b) sib" by auto
      have "right_of s1 b = Some x" "left_of s1 b = left_of s b"
        using bx Cons kr by (simp_all add: s1_def f0)
      moreover have "is_tree s1 (Some b) (left_of s b) sib"
        by (intro is_tree_frame [OF ts]) (simp add: outs)
      ultimately show ?thesis using Cons kr c'' pb tp hts by simp
    qed
  qed
  with tx have "is_tree s1 None (root_node s1) (plug (single x) c)"
    "\<forall>a \<in> crumb_nodes c. height_of s1 a = height_of s a"
    by (simp_all add: is_tree_plug single_def)
  with run hx show ?thesis by blast
qed

lemma link_walk_pre:
  assumes wf: "wf_tree s (plug Leaf c)" and inv: "avl_inv s (plug Leaf c)"
    and x: "x \<notin> set_tree (plug Leaf c)" and b: "height (plug Leaf c) < 127"
  shows "\<exists>s1. avl_link_node (Some x) (above c) (hole_left c) s = Some s1 \<and>
           walk_pre s1 (single x) 0 c"
proof -
  from wf have T: "is_tree s None (root_node s) (plug Leaf c)"
    and D: "distinct (inorder (plug Leaf c))" by (simp_all add: wf_tree_def)
  from link_leaf [OF T D x] obtain s1 where
    run: "avl_link_node (Some x) (above c) (hole_left c) s = Some s1"
    and t1: "is_tree s1 None (root_node s1) (plug (single x) c)"
    and hx: "heights_ok s1 (single x)"
    and hts: "\<forall>a \<in> crumb_nodes c. height_of s1 a = height_of s a" by blast
  from inv have "heights_ok s (plug Leaf c)" "balanced (plug Leaf c)" by (simp_all add: avl_inv_iff)
  from ctx_ok_of_inv [OF this] have "ctx_ok s 0 c" by simp
  moreover have "ctx_ok s1 0 c = ctx_ok s 0 c" using hts by (intro ctx_ok_same) auto
  ultimately have ok: "ctx_ok s1 0 c" by simp
  have d1: "distinct (inorder (plug (single x) c))"
    using D x by (auto simp: distinct_plug set_tree_plug single_def)
  have "height (plug (single x) c) \<le> height (plug Leaf c) + 1"
    by (rule height_plug_succ) (simp add: single_def)
  with b have b1: "height (plug (single x) c) \<le> 127" by linarith
  from t1 d1 b1 hx ok have "walk_pre s1 (single x) 0 c"
    by (simp add: walk_pre_def single_def)
  with run show ?thesis by blast
qed

text \<open>The state after the splice of a node with at most one child is such a state.\<close>

lemma splice_walk_pre:
  assumes wf: "wf_tree s (plug (Node l e r) c)" and inv: "avl_inv s (plug (Node l e r) c)"
    and lr: "l = Leaf \<or> r = Leaf" and sp: "spliced_out s s1 e"
  shows "walk_pre s1 (if l = Leaf then r else l) (height (Node l e r)) c"
proof -
  from wf have T: "is_tree s None (root_node s) (plug (Node l e r) c)"
    and D: "distinct (inorder (plug (Node l e r) c))" by (simp_all add: wf_tree_def)
  define t' where "t' = (if l = Leaf then r else l)"
  note st = spliced_tree [OF sp T D lr t'_def]
  from inv have H: "heights_ok s (plug (Node l e r) c)" and B: "balanced (plug (Node l e r) c)"
    by (simp_all add: avl_inv_iff)
  from ctx_ok_of_inv [OF H B] have he: "heights_ok s (Node l e r)" and be: "balanced (Node l e r)"
    and ok: "ctx_ok s (height (Node l e r)) c" by auto
  have sub: "set_tree t' \<subseteq> set_tree (Node l e r)" by (auto simp: t'_def)
  have dt: "distinct (inorder t')" using D by (auto simp: distinct_plug t'_def)
  note pf = plug_frame [OF T D st(1) st(2) sub dt]
  have h1: "heights_ok s1 t'" using he st(3) by (auto simp: t'_def)
  have b1: "balanced t'" using be by (auto simp: t'_def)
  have hh: "height t' \<le> height (Node l e r) + 1" "height (Node l e r) \<le> height t' + 1"
    using lr by (auto simp: t'_def)
  have "height t' \<le> height (Node l e r)" by (auto simp: t'_def)
  from height_plug_mono [OF this, of c] heights_ok_bound [OF H]
  have bd: "height (plug t' c) \<le> 127" by linarith
  have ok1: "ctx_ok s1 (height (Node l e r)) c" using ok pf(3) by simp
  from pf(1) pf(2) bd h1 b1 hh ok1 show ?thesis
    unfolding walk_pre_def t'_def [symmetric] by blast
qed

text \<open>
  Claim C3. The loop of \<open>avl_rebalance\<close> returns exactly when there is a walk, whose
  steps are the visits of the loop body, each followed by the move to the parent that
  the visited node has after the visit. With stored heights in range, a visit is the
  step that the spec words: the height is recomputed, the balance is the difference of
  the children's heights, and the rotations are chosen by its sign and by the sign of
  the balance of the heavy child.

  In a well-formed tree, a walk that starts at the node \<open>a\<close> visits \<open>a\<close> and then every
  node on the way from \<open>a\<close> up to the root, in this order (and, between them, the nodes
  that a rotation has promoted); it ends at the node that is then the root, and leaves
  a well-formed tree with the nodes in the same order. In a well-formed AVL tree the
  walk from \<open>a\<close> exists, visits the way to the root and changes nothing.

  In every state in which the walk is started (\<open>walk_pre\<close>: one subtree of an AVL tree
  has grown or shrunk by at most one level, and the heights stored on the path above it
  are stale), the call returns. The nodes it visits are those of the walk on shapes:
  every node of the path up to the root, and after a node at which it rotates the node
  it has promoted. The tree it leaves is the one that the rotations of the spec give,
  level by level, and it is a well-formed AVL tree with correct stored heights and the
  same nodes in the same order. In particular this holds for the call that
  \<open>avl_insert_color\<close> makes after \<open>avl_link_node\<close> has linked a new leaf \<open>x\<close> into a free
  slot of a well-formed AVL tree.
\<close>

theorem rebalance_walk_spec:
  "(avl_rebalance n s = Some s' \<longleftrightarrow> (\<exists>vs. walk n s vs s')) \<and>
   (heights_in_range s \<longrightarrow> avl_rebalance_body a s = rebalance_step_spec a s) \<and>
   (wf_tree s t \<and> a \<in> set_tree t \<and> walk (Some a) s vs s' \<longrightarrow>
      subseq (path_up t a) vs \<and> root_node s' = Some (last vs) \<and>
      (\<exists>t'. wf_tree s' t' \<and> inorder t' = inorder t)) \<and>
   (wf_tree s t \<and> avl_inv s t \<and> a \<in> set_tree t \<longrightarrow> walk (Some a) s (path_up t a) s) \<and>
   (walk_pre s t h c \<longrightarrow>
      (\<exists>s2. avl_rebalance (above c) s = Some s2 \<and> walk (above c) s (visited t c) s2 \<and>
            wf_tree s2 (rebalanced t c) \<and> avl_inv s2 (rebalanced t c)) \<and>
      subseq (map crumb_node c) (visited t c) \<and>
      inorder (rebalanced t c) = inorder (plug t c)) \<and>
   (wf_tree s (plug Leaf c) \<and> avl_inv s (plug Leaf c) \<and> x \<notin> set_tree (plug Leaf c) \<and>
    height (plug Leaf c) < 127 \<longrightarrow>
      (\<exists>s1 s2. avl_link_node (Some x) (above c) (hole_left c) s = Some s1 \<and>
         walk_pre s1 (single x) 0 c \<and> avl_insert_color (Some x) s1 = Some s2 \<and>
         walk (above c) s1 (visited (single x) c) s2 \<and>
         wf_tree s2 (rebalanced (single x) c) \<and> avl_inv s2 (rebalanced (single x) c)))"
proof -
  have c1: "avl_rebalance n s = Some s' \<longleftrightarrow> (\<exists>vs. walk n s vs s')"
    by (auto intro: walk_returns returns_walk)
  have c2: "avl_rebalance_body a s = rebalance_step_spec a s" if "heights_in_range s"
    using that by (rule step_spec)
  have c3: "subseq (path_up t a) vs \<and> root_node s' = Some (last vs) \<and>
      (\<exists>t'. wf_tree s' t' \<and> inorder t' = inorder t)"
    if h: "wf_tree s t \<and> a \<in> set_tree t \<and> walk (Some a) s vs s'"
  proof -
    from h obtain l r c where t: "t = plug (Node l a r) c" using tree_decompose by blast
    have pl: "plug l (In_left a r # c) = t" by (simp add: t)
    from h have T: "is_tree s None (root_node s) (plug l (In_left a r # c))"
      and D: "distinct (inorder (plug l (In_left a r # c)))" and w: "walk (Some a) s vs s'"
      unfolding pl by (simp_all add: wf_tree_def)
    have ab: "Some a = above (In_left a r # c)" by simp
    from walk_visits [OF w ab T D] obtain t' where
      v: "subseq (a # map crumb_node c) vs" "root_node s' = Some (last vs)"
      and t': "is_tree s' None (root_node s') t'" "inorder t' = inorder t"
      unfolding pl by auto
    from h have "distinct (inorder (plug (Node l a r) c))" by (simp add: wf_tree_def t)
    from path_up_plug [OF this, of a] have "path_up t a = a # map crumb_node c" by (simp add: t)
    moreover from t' h have "wf_tree s' t'" by (simp add: wf_tree_def)
    ultimately show ?thesis using v t' by auto
  qed
  have c4: "walk (Some a) s (path_up t a) s" if h: "wf_tree s t \<and> avl_inv s t \<and> a \<in> set_tree t"
  proof -
    from h obtain l r c where t: "t = plug (Node l a r) c" using tree_decompose by blast
    have pl: "plug l (In_left a r # c) = t" by (simp add: t)
    from h have "is_tree s None (root_node s) (plug l (In_left a r # c))"
      "distinct (inorder (plug l (In_left a r # c)))"
      "heights_ok s (plug l (In_left a r # c))" "balanced (plug l (In_left a r # c))"
      unfolding pl by (simp_all add: wf_tree_def avl_inv_iff)
    from walk_noop [OF this] have "walk (Some a) s (a # map crumb_node c) s" by simp
    moreover from h have "distinct (inorder (plug (Node l a r) c))" by (simp add: wf_tree_def t)
    from path_up_plug [OF this, of a] have "path_up t a = a # map crumb_node c" by (simp add: t)
    ultimately show ?thesis by simp
  qed
  have tot: "\<exists>s2. avl_rebalance (above c) s = Some s2 \<and> walk (above c) s (visited t c) s2 \<and>
            wf_tree s2 (rebalanced t c) \<and> avl_inv s2 (rebalanced t c)"
    if "walk_pre s t h c" for s t h c
  proof -
    from that have "is_tree s None (root_node s) (plug t c)" "distinct (inorder (plug t c))"
      "height (plug t c) \<le> 127" "heights_ok s t" "balanced t" "height t \<le> h + 1"
      "h \<le> height t + 1" "ctx_ok s h c"
      by (simp_all add: walk_pre_def)
    from walk_fix [OF this] obtain s2 where "walk (above c) s (visited t c) s2"
      "wf_tree s2 (rebalanced t c)" "avl_inv s2 (rebalanced t c)" by blast
    then show ?thesis by (auto dest: walk_returns)
  qed
  have c5: "(\<exists>s2. avl_rebalance (above c) s = Some s2 \<and> walk (above c) s (visited t c) s2 \<and>
            wf_tree s2 (rebalanced t c) \<and> avl_inv s2 (rebalanced t c)) \<and>
      subseq (map crumb_node c) (visited t c) \<and>
      inorder (rebalanced t c) = inorder (plug t c)" if "walk_pre s t h c"
    using tot [OF that] by (simp add: visited_path inorder_rebalanced)
  have c6: "\<exists>s1 s2. avl_link_node (Some x) (above c) (hole_left c) s = Some s1 \<and>
         walk_pre s1 (single x) 0 c \<and> avl_insert_color (Some x) s1 = Some s2 \<and>
         walk (above c) s1 (visited (single x) c) s2 \<and>
         wf_tree s2 (rebalanced (single x) c) \<and> avl_inv s2 (rebalanced (single x) c)"
    if h: "wf_tree s (plug Leaf c) \<and> avl_inv s (plug Leaf c) \<and> x \<notin> set_tree (plug Leaf c) \<and>
      height (plug Leaf c) < 127"
  proof -
    from h link_walk_pre [of s c x] obtain s1 where
      run: "avl_link_node (Some x) (above c) (hole_left c) s = Some s1"
      and pre: "walk_pre s1 (single x) 0 c" by blast
    from pre have "is_tree s1 (above c) (Some x) (single x)"
      by (simp add: walk_pre_def is_tree_plug single_def)
    then have px: "parent_of s1 x = above c" by (simp add: single_def)
    from tot [OF pre] obtain s2 where "avl_rebalance (above c) s1 = Some s2"
      "walk (above c) s1 (visited (single x) c) s2" "wf_tree s2 (rebalanced (single x) c)"
      "avl_inv s2 (rebalanced (single x) c)" by blast
    with run pre px show ?thesis by (auto simp: avl_insert_color_def)
  qed
  from c1 c2 c3 c4 c5 c6 show ?thesis by blast
qed

lemmas shape_simps = visit_spec_def tree_balance_def rot_left_root_def rot_right_root_def
  promoted_def single_def

theorem rebalance_walk_spec_witness:
  "heights_in_range chain3 \<and> avl_rebalance_body 3 chain3 = rebalance_step_spec 3 chain3 \<and>
   wf_tree chain3 (Node (Node (single 1) 2 Leaf) 3 Leaf) \<and>
   walk_pre chain3 (single 1) 0 [In_left 2 Leaf, In_left 3 Leaf] \<and>
   (\<exists>s'. avl_rebalance (Some 2) chain3 = Some s' \<and> walk (Some 2) chain3 [2, 3, 2] s' \<and>
      subseq [2, 3] [2, 3, 2] \<and> root_node s' = Some 2 \<and>
      wf_tree s' (Node (single 1) 2 (single 3)) \<and> avl_inv s' (Node (single 1) 2 (single 3))) \<and>
   walk_pre chain3_r (single 3) 0 [In_right 2 Leaf, In_right 1 Leaf] \<and>
   (\<exists>s'. avl_rebalance (Some 2) chain3_r = Some s' \<and> walk (Some 2) chain3_r [2, 1, 2] s' \<and>
      wf_tree s' (Node (single 1) 2 (single 3)) \<and> avl_inv s' (Node (single 1) 2 (single 3))) \<and>
   wf_tree two_nodes (Node (single 1) 2 Leaf) \<and> avl_inv two_nodes (Node (single 1) 2 Leaf) \<and>
   walk (Some 1) two_nodes [1, 2] two_nodes \<and>
   (\<exists>s1 s2. avl_link_node (Some 3) (Some 1) False two_nodes = Some s1 \<and>
      avl_insert_color (Some 3) s1 = Some s2 \<and> walk (Some 1) s1 [1, 2, 3] s2 \<and>
      wf_tree s2 (Node (single 1) 3 (single 2)) \<and> avl_inv s2 (Node (single 1) 3 (single 2)))"
proof -
  have hr: "heights_in_range chain3"
    by (simp add: heights_in_range_def chain3_def height_of_def)
  have wf3: "wf_tree chain3 (Node (Node (single 1) 2 Leaf) 3 Leaf)"
    by (simp add: wf_tree_def chain3_simps)
  have wf2: "wf_tree two_nodes (Node (single 1) 2 Leaf)" "avl_inv two_nodes (Node (single 1) 2 Leaf)"
    by (simp_all add: two_nodes_def wf_tree_def single_def left_of_def right_of_def parent_of_def
        height_of_def)
  have p3: "walk_pre chain3 (single 1) 0 [In_left 2 Leaf, In_left 3 Leaf]"
    by (simp add: walk_pre_def chain3_simps)
  have p3r: "walk_pre chain3_r (single 3) 0 [In_right 2 Leaf, In_right 1 Leaf]"
    by (simp add: walk_pre_def chain3_simps)
  have e3: "visited (single 1) [In_left 2 Leaf, In_left 3 Leaf] = [2, 3, 2]"
    "rebalanced (single 1) [In_left 2 Leaf, In_left 3 Leaf] = Node (single 1) 2 (single 3)"
    "visited (single 3) [In_right 2 Leaf, In_right 1 Leaf] = [2, 1, 2]"
    "rebalanced (single 3) [In_right 2 Leaf, In_right 1 Leaf] = Node (single 1) 2 (single 3)"
    "visited (single 3) [In_right 1 Leaf, In_left 2 Leaf] = [1, 2, 3]"
    "rebalanced (single 3) [In_right 1 Leaf, In_left 2 Leaf] = Node (single 1) 3 (single 2)"
    "plug Leaf [In_right 1 Leaf, In_left 2 Leaf] = Node (single 1) 2 Leaf"
    by (simp_all add: shape_simps)
  have "\<exists>s'. avl_rebalance (above [In_left 2 Leaf, In_left 3 Leaf]) chain3 = Some s' \<and>
      walk (above [In_left 2 Leaf, In_left 3 Leaf]) chain3
        (visited (single 1) [In_left 2 Leaf, In_left 3 Leaf]) s' \<and>
      wf_tree s' (rebalanced (single 1) [In_left 2 Leaf, In_left 3 Leaf]) \<and>
      avl_inv s' (rebalanced (single 1) [In_left 2 Leaf, In_left 3 Leaf])"
    using rebalance_walk_spec [where s = chain3 and t = "single 1" and h = 0
      and c = "[In_left 2 Leaf, In_left 3 Leaf]"] p3 by blast
  then obtain s' where a: "avl_rebalance (Some 2) chain3 = Some s'"
    "walk (Some 2) chain3 [2, 3, 2] s'"
    "wf_tree s' (Node (single 1) 2 (single 3))" "avl_inv s' (Node (single 1) 2 (single 3))"
    unfolding e3 by auto
  have "subseq (path_up (Node (Node (single 1) 2 Leaf) 3 Leaf) 2) [2, 3, 2] \<and>
      root_node s' = Some (last [2, 3, 2])"
    using rebalance_walk_spec [where s = chain3 and s' = s' and a = 2 and vs = "[2, 3, 2]"
      and t = "Node (Node (single 1) 2 Leaf) 3 Leaf"] wf3 a(2) by (simp add: single_def)
  then have v: "subseq [2, 3] [2, 3, 2]" "root_node s' = Some 2"
    by (simp_all add: single_def)
  have "\<exists>s'. avl_rebalance (above [In_right 2 Leaf, In_right 1 Leaf]) chain3_r = Some s' \<and>
      walk (above [In_right 2 Leaf, In_right 1 Leaf]) chain3_r
        (visited (single 3) [In_right 2 Leaf, In_right 1 Leaf]) s' \<and>
      wf_tree s' (rebalanced (single 3) [In_right 2 Leaf, In_right 1 Leaf]) \<and>
      avl_inv s' (rebalanced (single 3) [In_right 2 Leaf, In_right 1 Leaf])"
    using rebalance_walk_spec [where s = chain3_r and t = "single 3" and h = 0
      and c = "[In_right 2 Leaf, In_right 1 Leaf]"] p3r by blast
  then have r: "\<exists>s'. avl_rebalance (Some 2) chain3_r = Some s' \<and> walk (Some 2) chain3_r [2, 1, 2] s' \<and>
      wf_tree s' (Node (single 1) 2 (single 3)) \<and> avl_inv s' (Node (single 1) 2 (single 3))"
    unfolding e3 by auto
  have b: "avl_rebalance_body 3 chain3 = rebalance_step_spec 3 chain3"
    using rebalance_walk_spec [where s = chain3 and a = 3] hr by blast
  have "walk (Some 1) two_nodes (path_up (Node (single 1) 2 Leaf) 1) two_nodes"
    using rebalance_walk_spec [where s = two_nodes and a = 1 and t = "Node (single 1) 2 Leaf"] wf2
    by (simp add: single_def)
  then have n: "walk (Some 1) two_nodes [1, 2] two_nodes" by (simp add: single_def)
  have pre: "wf_tree two_nodes (plug Leaf [In_right 1 Leaf, In_left 2 Leaf]) \<and>
      avl_inv two_nodes (plug Leaf [In_right 1 Leaf, In_left 2 Leaf]) \<and>
      3 \<notin> set_tree (plug Leaf [In_right 1 Leaf, In_left 2 Leaf]) \<and>
      height (plug Leaf [In_right 1 Leaf, In_left 2 Leaf]) < 127"
    using wf2 unfolding e3 by (simp add: single_def)
  have "\<exists>s1 s2. avl_link_node (Some 3) (above [In_right 1 Leaf, In_left 2 Leaf])
        (hole_left [In_right 1 Leaf, In_left 2 Leaf]) two_nodes = Some s1 \<and>
      avl_insert_color (Some 3) s1 = Some s2 \<and>
      walk (above [In_right 1 Leaf, In_left 2 Leaf]) s1
        (visited (single 3) [In_right 1 Leaf, In_left 2 Leaf]) s2 \<and>
      wf_tree s2 (rebalanced (single 3) [In_right 1 Leaf, In_left 2 Leaf]) \<and>
      avl_inv s2 (rebalanced (single 3) [In_right 1 Leaf, In_left 2 Leaf])"
    using rebalance_walk_spec [where s = two_nodes and x = 3
      and c = "[In_right 1 Leaf, In_left 2 Leaf]"] pre by blast
  then have i: "\<exists>s1 s2. avl_link_node (Some 3) (Some 1) False two_nodes = Some s1 \<and>
      avl_insert_color (Some 3) s1 = Some s2 \<and> walk (Some 1) s1 [1, 2, 3] s2 \<and>
      wf_tree s2 (Node (single 1) 3 (single 2)) \<and> avl_inv s2 (Node (single 1) 3 (single 2))"
    unfolding e3 by auto
  from hr b wf3 p3 a v p3r r wf2 n i show ?thesis by blast
qed

section \<open>Scenarios of the test harness\<close>

text \<open>
  Claim C6 (Scenario A). The keys 50, 20, 70, 10, 30, 60, 80, 25, 35 are inserted in this
  order into an empty tree, each with \<open>avl_insert_key\<close> (comparison walk, then
  \<open>avl_link_node\<close> and \<open>avl_insert_color\<close>), whatever the memory held before. The
  traversal with \<open>avl_first\<close> and repeated \<open>avl_next\<close> then returns and yields exactly the
  keys 10, 20, 25, 30, 35, 50, 60, 70, 80.
\<close>

theorem scenario_A_inorder:
  "map_option fst
     (insert_all (node_key [50, 20, 70, 10, 30, 60, 80, 25, 35]) [1, 2, 3, 4, 5, 6, 7, 8, 9]
        (empty_tree m)
      \<bind> print_inorder (node_key [50, 20, 70, 10, 30, 60, 80, 25, 35]))
   = Some [10, 20, 25, 30, 35, 50, 60, 70, 80]"
  by (simp add: avl_exec cong: bind_weak_cong let_weak_cong)

text \<open>
  Claim C7 (Scenario C). The keys 1, 2, 3, 4, 5 are inserted in increasing order into an
  empty tree. The insertions return, and the result is the well-formed tree with node 2
  at the root, node 1 to its left and node 4, over 3 and 5, to its right: its height is
  3, the height stored at the root is 3, and the root is no longer the first node
  inserted, so rotations took place.
\<close>

theorem scenario_C_height:
  "case insert_all (node_key [1, 2, 3, 4, 5]) [1, 2, 3, 4, 5] (empty_tree m) of
     None \<Rightarrow> False
   | Some s \<Rightarrow>
       wf_tree s (Node (single 1) 2 (Node (single 3) 4 (single 5))) \<and>
       height (Node (single 1) 2 (Node (single 3) 4 (single 5))) \<le> 3 \<and>
       sint (avl_height_fn s (root_node s)) \<le> 3 \<and>
       root_node s \<noteq> Some 1"
  by (simp add: avl_exec cong: bind_weak_cong let_weak_cong)

text \<open>
  Claim C1, at a failing input. The keys 50, 20, 70, 10, 30, 60, 5, 25 are inserted into an
  empty tree; the result is a well-formed tree that satisfies both invariants. Then the
  node of key 20 (address 2, two children) is erased. \<open>avl_erase\<close> returns a well-formed
  tree in which the node of key 50 (address 1) has a left subtree of height 2 and no
  right subtree: the balance invariant is broken.
\<close>

theorem erase_breaks_avl_inv:
  "case insert_all (node_key [50, 20, 70, 10, 30, 60, 5, 25]) [1, 2, 3, 4, 5, 6, 7, 8]
          (empty_tree m) of
     None \<Rightarrow> False
   | Some s0 \<Rightarrow>
       wf_tree s0 (Node (Node (Node (single 7) 4 Leaf) 2 (Node (single 8) 5 Leaf)) 1 (Node (single 6) 3 Leaf)) \<and>
       avl_inv s0 (Node (Node (Node (single 7) 4 Leaf) 2 (Node (single 8) 5 Leaf)) 1 (Node (single 6) 3 Leaf)) \<and>
       (case avl_erase (Some 2) s0 of
          None \<Rightarrow> False
        | Some s \<Rightarrow>
            wf_tree s (Node (Node (single 7) 4 Leaf) 2 (Node (Node (single 8) 5 Leaf) 1 Leaf)) \<and>
            \<not> avl_inv s (Node (Node (single 7) 4 Leaf) 2 (Node (Node (single 8) 5 Leaf) 1 Leaf)) \<and>
            left_of s 1 = Some 5 \<and> right_of s 1 = None \<and> height_of s 5 = 2)"
  by (simp add: avl_exec cong: bind_weak_cong let_weak_cong)

text \<open>
  Claim C2, at a failing input (the first erase of Scenario B). From the tree of
  Scenario A the node of key 20 (address 2) is erased; it has two children and its
  in-order successor is the node of key 25 (address 8), the left child of the node of
  key 30 (address 5). \<open>avl_erase\<close> does not rewrite the successor's parent's slot: it
  clears the right slot of the parent of the erased node (key 50, address 1) and
  rebalances from there. The traversal of the result still yields 20 and 25, and the
  keys 60, 70 and 80 are gone.
\<close>

theorem scenario_B_first_erase:
  "case insert_all (node_key [50, 20, 70, 10, 30, 60, 80, 25, 35]) [1, 2, 3, 4, 5, 6, 7, 8, 9]
          (empty_tree m) of
     None \<Rightarrow> False
   | Some s0 \<Rightarrow>
       wf_tree s0 (Node (Node (single 4) 2 (Node (single 8) 5 (single 9))) 1 (Node (single 6) 3 (single 7))) \<and>
       map_option fst (avl_subtree_min (right_of s0 2) s0) = Some (Some 8) \<and>
       parent_of s0 8 = Some 5 \<and>
       (case avl_erase (Some 2) s0 of
          None \<Rightarrow> False
        | Some s \<Rightarrow>
            wf_tree s (Node (Node (single 4) 2 (single 8)) 5 (Node (single 9) 1 Leaf)) \<and>
            map_option fst (print_inorder (node_key [50, 20, 70, 10, 30, 60, 80, 25, 35]) s)
              = Some [10, 20, 25, 30, 35, 50])"
  by (simp add: avl_exec cong: bind_weak_cong let_weak_cong)

end
